theory Spec2Isabelle
  imports Main "HOL-Library.Word"
begin

text \<open>
  A shallow embedding of the detectors of \<^verbatim>\<open>cortona-desktop/main.js\<close>: the wake-word
  frame loop, the Leopard recording session, the availability handlers, the filesystem
  agent watcher and the visual window watcher. Module-level variables and closure
  variables of the source are fields of records that the handlers take and return;
  messages sent to the renderer are appended to a log inside the record.
\<close>

section \<open>Raw audio bytes and 16-bit sample views\<close>

type_synonym byte = "8 word"
type_synonym int16 = "16 word"

text \<open>
  \<^verbatim>\<open>new Int16Array(buf.buffer, buf.byteOffset, n)\<close> views the bytes of a Node
  \<^verbatim>\<open>Buffer\<close> as signed 16-bit samples in the byte order of the platform; every
  platform the desktop client runs on is little-endian, so the first byte of a pair is the
  low half. A trailing odd byte belongs to no sample. (The view also requires an even
  byte offset; \<^verbatim>\<open>Buffer.concat\<close> allocates at aligned offsets and the loop below
  slices at multiples of an even frame size, so that requirement is not modelled.)
\<close>

fun int16_view :: "byte list \<Rightarrow> int16 list" where
  "int16_view (lo # hi # bs) = word_cat hi lo # int16_view bs"
| "int16_view _ = []"

definition Int16Array :: "byte list \<Rightarrow> nat \<Rightarrow> int16 list" where
  "Int16Array buf n = take n (int16_view buf)"

text \<open>The bytes a sample sequence occupies (the inverse view).\<close>

fun byte_view :: "int16 list \<Rightarrow> byte list" where
  "byte_view [] = []"
| "byte_view (w # ws) = ucast w # ucast (drop_bit 8 w) # byte_view ws"

section \<open>State of the native audio components\<close>

text \<open>
  The Porcupine handle. The engine is opaque and stateful; an instance is identified with
  the frames it has been given so far (\<open>fed\<close>), and the outcome of
  \<^verbatim>\<open>porcupineHandle.process(frame)\<close> is a function of that history:
  \<open>Inr k\<close> is the returned keyword index, \<open>Inl msg\<close> a thrown error.
\<close>

record porcupine =
  p_frameLength :: nat
  p_sampleRate :: nat
  fed :: "int16 list list"

type_synonym engine = "int16 list list \<Rightarrow> string + int"

text \<open>
  The Leopard handle, likewise identified with the sample buffers passed to
  \<^verbatim>\<open>leopardHandle.process\<close>; \<^verbatim>\<open>release()\<close> marks it released.
\<close>

record leopard =
  l_released :: bool
  l_calls :: "int16 list list"

record transcript =
  t_transcript :: string
  t_words :: "string list"

type_synonym transcriber = "int16 list list \<Rightarrow> string + transcript"

text \<open>
  A capture process started by \<^verbatim>\<open>record.record({...})\<close> (one \<^verbatim>\<open>sox\<close> process
  reading the microphone). The captures started so far are kept in a list; a recording
  object is the index of its process.
\<close>

record capture =
  cap_sampleRate :: nat
  cap_running :: bool

record recording =
  rec_capture :: nat
  audioChunks :: "byte list list option"

datatype wake_msg = WakeWordDetected int

text \<open>
  The module variables \<^verbatim>\<open>porcupineHandle\<close>, \<^verbatim>\<open>porcupineListening\<close>,
  \<^verbatim>\<open>audioInputStream\<close>, \<^verbatim>\<open>wakeWordAccessKey\<close>, \<^verbatim>\<open>leopardHandle\<close>,
  \<^verbatim>\<open>leopardRecording\<close>, \<^verbatim>\<open>leopardAccessKey\<close>; the variables
  \<^verbatim>\<open>audioBuffer\<close>, \<^verbatim>\<open>frameLength\<close> and \<^verbatim>\<open>bytesPerFrame\<close> of the closure of
  the current wake-word data handler; whether
  \<^verbatim>\<open>mainWindow && !mainWindow.isDestroyed()\<close> holds; the capture processes; and the
  messages sent on channel \<^verbatim>\<open>wake-word-detected\<close>.
\<close>

record audio_state =
  porcupineHandle :: "porcupine option"
  porcupineListening :: bool
  audioInputStream :: "nat option"
  wakeWordAccessKey :: "string option"
  leopardHandle :: "leopard option"
  leopardRecording :: "recording option"
  leopardAccessKey :: "string option"
  audioBuffer :: "byte list"
  frameLength :: nat
  bytesPerFrame :: nat
  mainWindowOk :: bool
  captures :: "capture list"
  wake_sent :: "wake_msg list"

text \<open>
  What the functions ask of their surroundings: whether the three \<^verbatim>\<open>require\<close> calls
  at the top of the file succeeded, whether \<^verbatim>\<open>BuiltinKeyword[keyword.toUpperCase()]\<close>
  is truthy, whether the keyword and model files exist, and what the constructors and
  \<^verbatim>\<open>record.record\<close> do when called (\<open>Inl msg\<close>, \<open>Some msg\<close>: they throw).
\<close>

record env =
  record_loaded :: bool
  Porcupine_loaded :: bool
  Leopard_loaded :: bool
  BuiltinKeyword :: "string \<Rightarrow> bool"
  keyword_file_exists :: "string \<Rightarrow> bool"
  model_file_exists :: bool
  new_Porcupine :: "string \<Rightarrow> string \<Rightarrow> string + nat \<times> nat"
  new_Leopard :: "string \<Rightarrow> string option"
  record_record :: "string option"

definition boot :: "bool \<Rightarrow> audio_state" where
  "boot win = \<lparr>porcupineHandle = None, porcupineListening = False, audioInputStream = None,
     wakeWordAccessKey = None, leopardHandle = None, leopardRecording = None,
     leopardAccessKey = None, audioBuffer = [], frameLength = 0, bytesPerFrame = 0,
     mainWindowOk = win, captures = [], wake_sent = []\<rparr>"

definition stop_capture :: "nat \<Rightarrow> capture list \<Rightarrow> capture list" where
  "stop_capture i cs = (if i < length cs then cs[i := (cs ! i)\<lparr>cap_running := False\<rparr>] else cs)"

definition running_captures :: "audio_state \<Rightarrow> nat" where
  "running_captures s = length (filter cap_running (captures s))"

section \<open>Wake-word listener\<close>

subsection \<open>The audio data handler\<close>

text \<open>One pass of the body of \<^verbatim>\<open>while (audioBuffer.length >= bytesPerFrame)\<close>.\<close>

definition process_one :: "engine \<Rightarrow> porcupine \<Rightarrow> audio_state \<Rightarrow> audio_state" where
  "process_one eng h s =
     (let frameBuffer = take (bytesPerFrame s) (audioBuffer s);
          s1 = s\<lparr>audioBuffer := drop (bytesPerFrame s) (audioBuffer s)\<rparr>;
          frame = Int16Array frameBuffer (frameLength s);
          h' = h\<lparr>fed := fed h @ [frame]\<rparr>;
          s2 = s1\<lparr>porcupineHandle := Some h'\<rparr>
      in case eng (fed h') of
           Inr keywordIndex \<Rightarrow>
             if keywordIndex \<ge> 0 \<and> mainWindowOk s2
             then s2\<lparr>wake_sent := wake_sent s2 @ [WakeWordDetected keywordIndex]\<rparr>
             else s2
         | Inl e \<Rightarrow> s2)"

text \<open>
  The loop itself. A missing handle makes \<^verbatim>\<open>porcupineHandle.process\<close> throw inside the
  \<^verbatim>\<open>try\<close>, after the frame has been sliced off. With \<open>bytesPerFrame = 0\<close> the
  condition never becomes false, so the loop is a partial function: \<open>None\<close> is
  "does not return".
\<close>

partial_function (option) process_frames :: "engine \<Rightarrow> audio_state \<Rightarrow> audio_state option" where
  "process_frames eng s =
     (if length (audioBuffer s) \<ge> bytesPerFrame s
      then (case porcupineHandle s of
              Some h \<Rightarrow> process_frames eng (process_one eng h s)
            | None \<Rightarrow> process_frames eng (s\<lparr>audioBuffer := drop (bytesPerFrame s) (audioBuffer s)\<rparr>))
      else Some s)"

definition audio_data :: "engine \<Rightarrow> audio_state \<Rightarrow> byte list \<Rightarrow> audio_state option" where
  "audio_data eng s data =
     (if \<not> porcupineListening s \<or> porcupineHandle s = None then Some s
      else process_frames eng (s\<lparr>audioBuffer := audioBuffer s @ data\<rparr>))"

text \<open>The stream delivers its chunks one \<^verbatim>\<open>data\<close> event after the other.\<close>

fun feed :: "engine \<Rightarrow> audio_state \<Rightarrow> byte list list \<Rightarrow> audio_state option" where
  "feed eng s [] = Some s"
| "feed eng s (c # cs) = (case audio_data eng s c of None \<Rightarrow> None | Some s' \<Rightarrow> feed eng s' cs)"

subsection \<open>Starting and stopping\<close>

text \<open>
  The objects the start function returns: \<open>WakeUnavailable\<close> is
  \<^verbatim>\<open>{success: false, error: 'Audio recording or Porcupine not available'}\<close>,
  \<open>AlreadyListening\<close> is \<^verbatim>\<open>{success: true, message: 'Already listening'}\<close>,
  \<open>WakeFailed msg\<close> is what the \<^verbatim>\<open>catch\<close> returns, \<open>WakeStarted sampleRate frameLength\<close>
  is \<^verbatim>\<open>{success: true, sampleRate, frameLength}\<close>; the others are the three early
  returns with \<^verbatim>\<open>success: false\<close>.
\<close>

datatype wake_result =
    WakeUnavailable
  | AlreadyListening
  | UnknownKeyword string
  | KeywordFileNotFound
  | ModelFileNotFound
  | WakeFailed string
  | WakeStarted nat nat

fun wake_success :: "wake_result \<Rightarrow> bool" where
  "wake_success AlreadyListening = True"
| "wake_success (WakeStarted sr fl) = True"
| "wake_success _ = False"

definition stopNativeWakeWordListening :: "audio_state \<Rightarrow> audio_state" where
  "stopNativeWakeWordListening s =
     (let s1 = s\<lparr>porcupineListening := False\<rparr>;
          s2 = (case audioInputStream s1 of
                  Some i \<Rightarrow> s1\<lparr>captures := stop_capture i (captures s1), audioInputStream := None\<rparr>
                | None \<Rightarrow> s1)
      in case porcupineHandle s2 of
           Some h \<Rightarrow> s2\<lparr>porcupineHandle := None\<rparr>
         | None \<Rightarrow> s2)"

definition startNativeWakeWordListening ::
  "env \<Rightarrow> string \<Rightarrow> string \<Rightarrow> audio_state \<Rightarrow> wake_result \<times> audio_state" where
  "startNativeWakeWordListening e accessKey keyword s =
     (if \<not> record_loaded e \<or> \<not> Porcupine_loaded e then (WakeUnavailable, s)
      else if porcupineListening s then (AlreadyListening, s)
      else
        let s0 = stopNativeWakeWordListening s in
        if \<not> BuiltinKeyword e keyword then (UnknownKeyword keyword, s0)
        else if \<not> keyword_file_exists e keyword then (KeywordFileNotFound, s0)
        else if \<not> model_file_exists e then (ModelFileNotFound, s0)
        else case new_Porcupine e accessKey keyword of
          Inl msg \<Rightarrow> (WakeFailed msg, stopNativeWakeWordListening s0)
        | Inr (fl, sr) \<Rightarrow>
            (let s1 = s0\<lparr>porcupineHandle := Some \<lparr>p_frameLength = fl, p_sampleRate = sr, fed = []\<rparr>\<rparr>
             in (case record_record e of
                   Some msg \<Rightarrow> (WakeFailed msg, stopNativeWakeWordListening s1)
                 | None \<Rightarrow>
                     (let s2 = s1\<lparr>captures := captures s1 @ [\<lparr>cap_sampleRate = sr, cap_running = True\<rparr>],
                                  audioInputStream := Some (length (captures s1))\<rparr>;
                          s3 = s2\<lparr>audioBuffer := [], frameLength := fl, bytesPerFrame := fl * 2\<rparr>;
                          s4 = s3\<lparr>porcupineListening := True, wakeWordAccessKey := Some accessKey\<rparr>
                      in (WakeStarted sr fl, s4)))))"

section \<open>Leopard recording session\<close>

datatype leopard_start_result =
    LeopardUnavailable
  | LeopardStartFailed string
  | LeopardStarted

datatype leopard_stop_result =
    NoActiveRecording
  | NoAudioRecorded
  | TranscriptionFailed string
  | Transcribed transcript nat nat

text \<open>
  \<open>LeopardStarted\<close> is \<^verbatim>\<open>{success: true}\<close>; \<open>NoActiveRecording\<close> and
  \<open>NoAudioRecorded\<close> are \<^verbatim>\<open>{success: false, error: 'No active recording'}\<close> and
  \<^verbatim>\<open>{success: false, error: 'No audio recorded'}\<close>; \<open>Transcribed t audioBytes samples\<close>
  is the successful result. The function has no test of \<^verbatim>\<open>leopardRecording\<close> or of
  \<^verbatim>\<open>porcupineListening\<close> before \<^verbatim>\<open>record.record\<close>.
\<close>

definition startNativeLeopardRecording ::
  "env \<Rightarrow> string \<Rightarrow> audio_state \<Rightarrow> leopard_start_result \<times> audio_state" where
  "startNativeLeopardRecording e accessKey s =
     (if \<not> record_loaded e \<or> \<not> Leopard_loaded e then (LeopardUnavailable, s)
      else
        let init = (if leopardHandle s = None \<or> leopardAccessKey s \<noteq> Some accessKey
                    then (let s0 = (case leopardHandle s of
                                      Some h \<Rightarrow> s\<lparr>leopardHandle := Some (h\<lparr>l_released := True\<rparr>)\<rparr>
                                    | None \<Rightarrow> s)
                          in (case new_Leopard e accessKey of
                                Some msg \<Rightarrow> Inl (msg, s0)
                              | None \<Rightarrow> Inr (s0\<lparr>leopardHandle := Some \<lparr>l_released = False, l_calls = []\<rparr>,
                                                 leopardAccessKey := Some accessKey\<rparr>)))
                    else Inr s)
        in case init of
             Inl (msg, s0) \<Rightarrow> (LeopardStartFailed msg, s0)
           | Inr s1 \<Rightarrow>
               (case record_record e of
                  Some msg \<Rightarrow> (LeopardStartFailed msg, s1)
                | None \<Rightarrow>
                    (LeopardStarted,
                     s1\<lparr>captures := captures s1 @ [\<lparr>cap_sampleRate = 16000, cap_running = True\<rparr>],
                        leopardRecording := Some \<lparr>rec_capture = length (captures s1),
                                                   audioChunks = Some []\<rparr>\<rparr>)))"

text \<open>
  The data handler of the capture \<open>cap\<close> pushes onto the array of its own closure, which
  is the \<^verbatim>\<open>audioChunks\<close> of the recording object created by the same call. (The
  \<^verbatim>\<open>audio-level\<close> message it also sends is a floating-point value and is left out.)
\<close>

definition leopard_data :: "nat \<Rightarrow> byte list \<Rightarrow> audio_state \<Rightarrow> audio_state" where
  "leopard_data cap data s =
     (case leopardRecording s of
        Some r \<Rightarrow>
          if rec_capture r = cap
          then s\<lparr>leopardRecording :=
                   Some (r\<lparr>audioChunks := Some ((case audioChunks r of Some cs \<Rightarrow> cs | None \<Rightarrow> []) @ [data])\<rparr>)\<rparr>
          else s
      | None \<Rightarrow> s)"

text \<open>
  \<^verbatim>\<open>leopardRecording.stop()\<close> kills the capture process, which exists for every
  recording object, and does not throw. A missing \<^verbatim>\<open>leopardHandle\<close> makes the call
  of \<^verbatim>\<open>process\<close> throw a TypeError, which the \<^verbatim>\<open>catch\<close> turns into a failure.
\<close>

definition stopNativeLeopardRecording ::
  "transcriber \<Rightarrow> audio_state \<Rightarrow> leopard_stop_result \<times> audio_state" where
  "stopNativeLeopardRecording leo s =
     (case leopardRecording s of
        None \<Rightarrow> (NoActiveRecording, s)
      | Some r \<Rightarrow>
          (let chunks = (case audioChunks r of Some cs \<Rightarrow> cs | None \<Rightarrow> []);
               s1 = s\<lparr>captures := stop_capture (rec_capture r) (captures s), leopardRecording := None\<rparr>
           in if length chunks = 0 then (NoAudioRecorded, s1)
              else
                (let buffer = concat chunks;
                     samples = Int16Array buffer (length buffer div 2)
                 in (case leopardHandle s1 of
                       None \<Rightarrow> (TranscriptionFailed ''TypeError'', s1)
                     | Some h \<Rightarrow>
                         (let h' = h\<lparr>l_calls := l_calls h @ [samples]\<rparr>;
                              s2 = s1\<lparr>leopardHandle := Some h'\<rparr>
                          in (case leo (l_calls h') of
                                Inl msg \<Rightarrow> (TranscriptionFailed msg, s2)
                              | Inr t \<Rightarrow> (Transcribed t (length buffer) (length samples), s2)))))))"

section \<open>Availability handlers\<close>

text \<open>
  Reading an identifier: the module declares \<^verbatim>\<open>Porcupine\<close>, \<^verbatim>\<open>Leopard\<close> and
  \<^verbatim>\<open>record\<close> (each \<^verbatim>\<open>null\<close> when its \<^verbatim>\<open>require\<close> failed); the value read is
  whether the variable is not \<^verbatim>\<open>null\<close>. Reading an identifier that is declared
  nowhere throws a ReferenceError. \<^verbatim>\<open>portAudio\<close> occurs in the file only in the
  \<^verbatim>\<open>porcupine-available\<close> handler.
\<close>

datatype js_error = ReferenceError string

definition read_var :: "env \<Rightarrow> string \<Rightarrow> js_error + bool" where
  "read_var e x =
     (if x = ''Porcupine'' then Inr (Porcupine_loaded e)
      else if x = ''Leopard'' then Inr (Leopard_loaded e)
      else if x = ''record'' then Inr (record_loaded e)
      else Inl (ReferenceError x))"

text \<open>
  \<^verbatim>\<open>return { available: Porcupine !== null && portAudio !== null }\<close>: the right
  operand of \<^verbatim>\<open>&&\<close> is evaluated only when the left one is true. \<open>Inr b\<close> is the
  returned object \<^verbatim>\<open>{available: b}\<close>, \<open>Inl err\<close> a handler that throws.
\<close>

definition porcupine_available :: "env \<Rightarrow> js_error + bool" where
  "porcupine_available e =
     (case read_var e ''Porcupine'' of
        Inl err \<Rightarrow> Inl err
      | Inr a \<Rightarrow>
          if \<not> a then Inr False
          else (case read_var e ''portAudio'' of
                  Inl err \<Rightarrow> Inl err
                | Inr b \<Rightarrow> Inr b))"

text \<open>\<^verbatim>\<open>return { available: !!Leopard && !!record }\<close>\<close>

definition leopard_available :: "env \<Rightarrow> js_error + bool" where
  "leopard_available e =
     (case read_var e ''Leopard'' of
        Inl err \<Rightarrow> Inl err
      | Inr a \<Rightarrow>
          if \<not> a then Inr False
          else (case read_var e ''record'' of
                  Inl err \<Rightarrow> Inl err
                | Inr b \<Rightarrow> Inr b))"

section \<open>Timers\<close>

text \<open>
  Node's table of armed timeouts: handle, due time in milliseconds, and the data the
  callback closed over. \<^verbatim>\<open>setTimeout(f, d)\<close> arms a timer due \<open>d\<close> ms after the
  current time, where a delay below 1 or above \<open>2\<^sup>3\<^sup>1 - 1\<close> counts as 1;
  \<^verbatim>\<open>clearTimeout(h)\<close> removes the timer with that handle and does nothing when it
  has fired or was cleared already. Timers are taken to fire exactly when due. For the
  agent watcher, a timer due at or before the time of an incoming chokidar event fires
  before that event is handled. For the window watcher, whose polls are themselves
  callbacks of an interval timer armed earlier, a timeout due before a poll fires before
  it, and a timeout due at the very instant of a poll fires right after that poll. No
  callback in this file arms or clears a timer, so the due timers can be taken from the
  table first and their callbacks run afterwards, in order of due time.
\<close>

type_synonym 'p timer = "nat \<times> int \<times> 'p"

definition setTimeout_delay :: "int \<Rightarrow> int" where
  "setTimeout_delay d = (if d < 1 \<or> 2147483647 < d then 1 else d)"

definition clearTimeout :: "nat \<Rightarrow> 'p timer list \<Rightarrow> 'p timer list" where
  "clearTimeout h tab = filter (\<lambda>(h', d, p). h' \<noteq> h) tab"

definition due_timers :: "int \<Rightarrow> 'p timer list \<Rightarrow> 'p timer list" where
  "due_timers t tab = sort_key (\<lambda>(h, d, p). d) (filter (\<lambda>(h, d, p). d \<le> t) tab)"

definition pending_timers :: "int \<Rightarrow> 'p timer list \<Rightarrow> 'p timer list" where
  "pending_timers t tab = filter (\<lambda>(h, d, p). \<not> d \<le> t) tab"

definition timers_before :: "int \<Rightarrow> 'p timer list \<Rightarrow> 'p timer list" where
  "timers_before t tab = sort_key (\<lambda>(h, d, p). d) (filter (\<lambda>(h, d, p). d < t) tab)"

definition timers_from :: "int \<Rightarrow> 'p timer list \<Rightarrow> 'p timer list" where
  "timers_from t tab = filter (\<lambda>(h, d, p). \<not> d < t) tab"

text \<open>\<^verbatim>\<open>null\<close> in arithmetic is 0.\<close>

definition num :: "int option \<Rightarrow> int" where
  "num v = (case v of Some n \<Rightarrow> n | None \<Rightarrow> 0)"

section \<open>Filesystem agent watcher\<close>

datatype agent_msg = AgentFinished "string list" string int

text \<open>
  The module variables \<^verbatim>\<open>agentWatcher\<close> (whether a chokidar watcher exists),
  \<^verbatim>\<open>agentWatcherEnabled\<close>, \<^verbatim>\<open>lastFileChange\<close>, \<^verbatim>\<open>agentIdleTimer\<close>; the
  variables \<^verbatim>\<open>hasSeenActivity\<close> and \<^verbatim>\<open>changedFiles\<close> of the closure made by
  \<^verbatim>\<open>startAgentWatcher\<close>; the timer table; whether the main window can be sent to;
  the \<^verbatim>\<open>agent-finished\<close> messages sent, each with the time it was sent at; and the
  calls of \<^verbatim>\<open>showNotification\<close> (time and number of files).
\<close>

record agent_state =
  agentWatcher :: bool
  agentWatcherEnabled :: bool
  lastFileChange :: "int option"
  agentIdleTimer :: "nat option"
  hasSeenActivity :: bool
  changedFiles :: "string list"
  a_timers :: "unit timer list"
  a_next :: nat
  a_mainWindowOk :: bool
  a_sent :: "(int \<times> agent_msg) list"
  a_notified :: "(int \<times> nat) list"

text \<open>
  The parameters the handlers close over. \<open>relative\<close> stands for Node's
  \<^verbatim>\<open>path.relative\<close>.
\<close>

record agent_config =
  watchPath :: string
  idleThreshold :: int
  relative :: "string \<Rightarrow> string \<Rightarrow> string"

definition AGENT_IDLE_THRESHOLD :: int where
  "AGENT_IDLE_THRESHOLD = 3000"

definition agent_boot :: "bool \<Rightarrow> agent_state" where
  "agent_boot win = \<lparr>agentWatcher = False, agentWatcherEnabled = False, lastFileChange = None,
     agentIdleTimer = None, hasSeenActivity = False, changedFiles = [], a_timers = [],
     a_next = 0, a_mainWindowOk = win, a_sent = [], a_notified = []\<rparr>"

definition stopAgentWatcher :: "agent_state \<Rightarrow> agent_state" where
  "stopAgentWatcher s =
     (let s1 = s\<lparr>agentWatcherEnabled := False\<rparr>;
          s2 = (case agentIdleTimer s1 of
                  Some h \<Rightarrow> s1\<lparr>a_timers := clearTimeout h (a_timers s1), agentIdleTimer := None\<rparr>
                | None \<Rightarrow> s1);
          s3 = (if agentWatcher s2 then s2\<lparr>agentWatcher := False\<rparr> else s2)
      in s3\<lparr>lastFileChange := None\<rparr>)"

text \<open>
  \<^verbatim>\<open>startAgentWatcher(watchPath, { idleThreshold })\<close>: an undefined threshold takes the
  default. The call makes a new closure, with its own \<^verbatim>\<open>hasSeenActivity\<close> and
  \<^verbatim>\<open>changedFiles\<close>, and returns \<^verbatim>\<open>{success: true, watchPath}\<close>.
\<close>

definition startAgentWatcher ::
  "string \<Rightarrow> int option \<Rightarrow> (string \<Rightarrow> string \<Rightarrow> string) \<Rightarrow> agent_state \<Rightarrow> agent_config \<times> agent_state" where
  "startAgentWatcher wp opt_threshold rel s =
     (let c = \<lparr>watchPath = wp,
                idleThreshold = (case opt_threshold of Some v \<Rightarrow> v | None \<Rightarrow> AGENT_IDLE_THRESHOLD),
                relative = rel\<rparr>;
          s0 = (if agentWatcher s then stopAgentWatcher s else s)
      in (c, s0\<lparr>hasSeenActivity := False, changedFiles := [], agentWatcher := True\<rparr>))"

text \<open>The handler of \<^verbatim>\<open>change\<close>, run at time \<open>now\<close>.\<close>

definition agent_on_change :: "agent_config \<Rightarrow> int \<Rightarrow> string \<Rightarrow> agent_state \<Rightarrow> agent_state" where
  "agent_on_change c now filePath s =
     (let s1 = s\<lparr>hasSeenActivity := True, lastFileChange := Some now\<rparr>;
          relativePath = relative c (watchPath c) filePath;
          s2 = (if relativePath \<in> set (changedFiles s1) then s1
                else s1\<lparr>changedFiles := changedFiles s1 @ [relativePath]\<rparr>);
          s3 = (case agentIdleTimer s2 of
                  Some h \<Rightarrow> s2\<lparr>a_timers := clearTimeout h (a_timers s2)\<rparr>
                | None \<Rightarrow> s2);
          h = a_next s3
      in s3\<lparr>a_timers := a_timers s3 @ [(h, now + setTimeout_delay (idleThreshold c), ())],
            a_next := Suc h, agentIdleTimer := Some h\<rparr>)"

text \<open>The callback given to \<^verbatim>\<open>setTimeout\<close>, run at time \<open>now\<close>.\<close>

definition agent_idle_timeout :: "agent_config \<Rightarrow> int \<Rightarrow> agent_state \<Rightarrow> agent_state" where
  "agent_idle_timeout c now s =
     (if hasSeenActivity s \<and> agentWatcherEnabled s then
        (let s1 = (if a_mainWindowOk s
                   then s\<lparr>a_sent := a_sent s @
                          [(now, AgentFinished (changedFiles s) (watchPath c)
                                   (now - (num (lastFileChange s) - idleThreshold c)))]\<rparr>
                   else s);
             s2 = s1\<lparr>a_notified := a_notified s1 @ [(now, length (changedFiles s1))]\<rparr>
         in s2\<lparr>changedFiles := [], hasSeenActivity := False\<rparr>)
      else s)"

text \<open>The events chokidar emits; \<^verbatim>\<open>add\<close> re-emits \<^verbatim>\<open>change\<close>.\<close>

datatype fs_event = Change string | Add string | Ready | WatchError

fun agent_event :: "agent_config \<Rightarrow> int \<Rightarrow> fs_event \<Rightarrow> agent_state \<Rightarrow> agent_state" where
  "agent_event c now (Change filePath) s = agent_on_change c now filePath s"
| "agent_event c now (Add filePath) s = agent_on_change c now filePath s"
| "agent_event c now Ready s = s\<lparr>agentWatcherEnabled := True\<rparr>"
| "agent_event c now WatchError s = s"

definition agent_fire_due :: "agent_config \<Rightarrow> int \<Rightarrow> agent_state \<Rightarrow> agent_state" where
  "agent_fire_due c t s =
     fold (\<lambda>(h, d, p) s'. agent_idle_timeout c d s') (due_timers t (a_timers s))
       (s\<lparr>a_timers := pending_timers t (a_timers s)\<rparr>)"

text \<open>A run: timestamped events in order of arrival, then the clock advanced to \<open>T\<close>.\<close>

fun agent_run :: "agent_config \<Rightarrow> (int \<times> fs_event) list \<Rightarrow> agent_state \<Rightarrow> agent_state" where
  "agent_run c [] s = s"
| "agent_run c ((t, ev) # evs) s = agent_run c evs (agent_event c t ev (agent_fire_due c t s))"

definition agent_exec :: "agent_config \<Rightarrow> (int \<times> fs_event) list \<Rightarrow> int \<Rightarrow> agent_state \<Rightarrow> agent_state" where
  "agent_exec c evs T s = agent_fire_due c T (agent_run c evs s)"

fun is_change :: "fs_event \<Rightarrow> bool" where
  "is_change (Change p) = True"
| "is_change (Add p) = True"
| "is_change _ = False"

definition change_times :: "(int \<times> fs_event) list \<Rightarrow> int list" where
  "change_times evs = map fst (filter (\<lambda>(t, ev). is_change ev) evs)"

definition changed_paths :: "(int \<times> fs_event) list \<Rightarrow> string list" where
  "changed_paths evs = concat (map (\<lambda>(t, ev). case ev of Change p \<Rightarrow> [p] | Add p \<Rightarrow> [p] | _ \<Rightarrow> []) evs)"

section \<open>Visual window watcher\<close>

record window_info =
  wi_index :: nat
  wi_bounds :: "int \<times> int \<times> int \<times> int"
  wi_title :: string

datatype window_msg =
    WindowActivity "string option" string int
  | WindowAgentFinished "string option" string int

text \<open>
  The module variables \<^verbatim>\<open>windowWatcherEnabled\<close>, \<^verbatim>\<open>windowWatcherApp\<close>,
  \<^verbatim>\<open>windowWatcherTitle\<close>, \<^verbatim>\<open>lastWindowHash\<close>, \<^verbatim>\<open>lastWindowActivity\<close>,
  \<^verbatim>\<open>windowIdleTimer\<close> and \<^verbatim>\<open>windowWatcherConfig.idleThreshold\<close> (\<open>None\<close>:
  \<^verbatim>\<open>undefined\<close>, which \<^verbatim>\<open>Object.assign\<close> copies from the options like any
  other value); the timer table, whose entries carry the title of the
  \<^verbatim>\<open>currentInfo\<close> their callback closed over; and the messages
  \<^verbatim>\<open>window-activity {app, title, timestamp}\<close> and
  \<^verbatim>\<open>window-agent-finished {app, title, idleTime}\<close> sent, each with the time it was
  sent at, and the notifications shown.
\<close>

record window_state =
  windowWatcherEnabled :: bool
  windowWatcherApp :: "string option"
  windowWatcherTitle :: "string option"
  lastWindowHash :: "string option"
  lastWindowActivity :: "int option"
  windowIdleTimer :: "nat option"
  config_idleThreshold :: "int option"
  w_timers :: "string timer list"
  w_next :: nat
  w_mainWindowOk :: bool
  w_sent :: "(int \<times> window_msg) list"
  w_notified :: "(int \<times> int) list"

definition window_boot :: "bool \<Rightarrow> window_state" where
  "window_boot win = \<lparr>windowWatcherEnabled = False, windowWatcherApp = None,
     windowWatcherTitle = None, lastWindowHash = None, lastWindowActivity = None,
     windowIdleTimer = None, config_idleThreshold = Some 5000, w_timers = [], w_next = 0,
     w_mainWindowOk = win, w_sent = [], w_notified = []\<rparr>"

text \<open>A string or \<^verbatim>\<open>null\<close> used as a condition: \<^verbatim>\<open>null\<close> and \<^verbatim>\<open>''\<close> are false.\<close>

definition truthy :: "string option \<Rightarrow> bool" where
  "truthy v = (case v of Some x \<Rightarrow> x \<noteq> [] | None \<Rightarrow> False)"

text \<open>\<^verbatim>\<open>a >= b\<close> where \<open>b\<close> may be \<^verbatim>\<open>undefined\<close>: then it is false.\<close>

definition js_ge :: "int \<Rightarrow> int option \<Rightarrow> bool" where
  "js_ge a b = (case b of Some v \<Rightarrow> a \<ge> v | None \<Rightarrow> False)"

definition stopWindowWatcher :: "window_state \<Rightarrow> window_state" where
  "stopWindowWatcher s =
     (let s1 = s\<lparr>windowWatcherEnabled := False\<rparr>;
          s2 = (case windowIdleTimer s1 of
                  Some h \<Rightarrow> s1\<lparr>w_timers := clearTimeout h (w_timers s1), windowIdleTimer := None\<rparr>
                | None \<Rightarrow> s1)
      in s2\<lparr>windowWatcherApp := None, windowWatcherTitle := None, lastWindowHash := None,
            lastWindowActivity := None\<rparr>)"

datatype window_start_result = AppNotFound | WindowNotFound | WindowStarted string string

text \<open>
  \<^verbatim>\<open>startWindowWatcher\<close> up to the point where it arms the polling interval. Its
  inputs from the desktop are the result of \<^verbatim>\<open>findAppByName\<close>, the clock, the result
  of \<^verbatim>\<open>getWindowInfo\<close> and the result of \<^verbatim>\<open>captureWindowHash\<close> (\<open>None\<close>:
  \<^verbatim>\<open>null\<close>).
\<close>

definition startWindowWatcher ::
  "string option \<Rightarrow> int option \<Rightarrow> int \<Rightarrow> window_info option \<Rightarrow> string option \<Rightarrow> window_state
     \<Rightarrow> window_start_result \<times> window_state" where
  "startWindowWatcher found opt_threshold now info hash s =
     (let s0 = stopWindowWatcher s
      in case found of
           None \<Rightarrow> (AppNotFound, s0)
         | Some appName \<Rightarrow>
             (let s1 = s0\<lparr>config_idleThreshold := opt_threshold, windowWatcherEnabled := True,
                          windowWatcherApp := Some appName, lastWindowActivity := Some now\<rparr>
              in (case info of
                    Some windowInfo \<Rightarrow>
                      (WindowStarted appName (wi_title windowInfo),
                       s1\<lparr>windowWatcherTitle := Some (wi_title windowInfo), lastWindowHash := hash\<rparr>)
                  | None \<Rightarrow> (WindowNotFound, s1))))"

text \<open>
  One run of the function given to \<^verbatim>\<open>setInterval\<close>, at time \<open>now\<close>, with the results
  of \<^verbatim>\<open>getWindowInfo\<close> and \<^verbatim>\<open>captureWindowHash\<close> in that run.
\<close>

definition poll_tick :: "int \<Rightarrow> window_info option \<Rightarrow> string option \<Rightarrow> window_state \<Rightarrow> window_state" where
  "poll_tick now info hash s =
     (if \<not> windowWatcherEnabled s then s
      else case info of
        None \<Rightarrow> s
      | Some currentInfo \<Rightarrow>
          (let currentHash = hash;
               hasHashChanged = (truthy currentHash \<and> currentHash \<noteq> lastWindowHash s)
           in if hasHashChanged then
                (let s1 = s\<lparr>lastWindowHash := currentHash, lastWindowActivity := Some now\<rparr>;
                     s2 = (case windowIdleTimer s1 of
                             Some h \<Rightarrow> s1\<lparr>w_timers := clearTimeout h (w_timers s1), windowIdleTimer := None\<rparr>
                           | None \<Rightarrow> s1)
                 in if w_mainWindowOk s2
                    then s2\<lparr>w_sent := w_sent s2 @
                           [(now, WindowActivity (windowWatcherApp s2) (wi_title currentInfo) now)]\<rparr>
                    else s2)
              else
                (let idleTime = now - num (lastWindowActivity s)
                 in if js_ge idleTime (config_idleThreshold s) \<and> windowIdleTimer s = None then
                      (let h = w_next s
                       in s\<lparr>w_timers := w_timers s @ [(h, now + setTimeout_delay 2000, wi_title currentInfo)],
                            w_next := Suc h, windowIdleTimer := Some h\<rparr>)
                    else s)))"

text \<open>The callback of the confirmation timeout, run at time \<open>now\<close>.\<close>

definition window_idle_timeout :: "int \<Rightarrow> string \<Rightarrow> window_state \<Rightarrow> window_state" where
  "window_idle_timeout now title s =
     (let finalIdleTime = now - num (lastWindowActivity s);
          s1 = (if js_ge finalIdleTime (config_idleThreshold s) then
                  (let s' = (if w_mainWindowOk s
                             then s\<lparr>w_sent := w_sent s @
                                    [(now, WindowAgentFinished (windowWatcherApp s) title finalIdleTime)]\<rparr>
                             else s)
                   in s'\<lparr>w_notified := w_notified s' @ [(now, finalIdleTime)]\<rparr>)
                else s)
      in s1\<lparr>windowIdleTimer := None\<rparr>)"

definition window_fire_due :: "int \<Rightarrow> window_state \<Rightarrow> window_state" where
  "window_fire_due t s =
     fold (\<lambda>(h, d, title) s'. window_idle_timeout d title s') (due_timers t (w_timers s))
       (s\<lparr>w_timers := pending_timers t (w_timers s)\<rparr>)"

definition window_fire_before :: "int \<Rightarrow> window_state \<Rightarrow> window_state" where
  "window_fire_before t s =
     fold (\<lambda>(h, d, title) s'. window_idle_timeout d title s') (timers_before t (w_timers s))
       (s\<lparr>w_timers := timers_from t (w_timers s)\<rparr>)"

text \<open>
  A run: the polls in order, each with its time and what it observes. At the time of a
  poll the timeouts due earlier have fired, then the poll runs, then a timeout due at
  that same instant fires. At the end the clock is advanced to \<open>T\<close>.
\<close>

type_synonym tick = "int \<times> window_info option \<times> string option"

fun window_run :: "tick list \<Rightarrow> window_state \<Rightarrow> window_state" where
  "window_run [] s = s"
| "window_run ((t, info, hash) # ticks) s =
     window_run ticks (window_fire_due t (poll_tick t info hash (window_fire_before t s)))"

definition window_exec :: "tick list \<Rightarrow> int \<Rightarrow> window_state \<Rightarrow> window_state" where
  "window_exec ticks T s = window_fire_due T (window_run ticks s)"

text \<open>Polls at the times \<open>ts\<close> that all find the window \<open>ci\<close> and compute the hash \<open>H t\<close>.\<close>

definition polls :: "window_info \<Rightarrow> (int \<Rightarrow> string option) \<Rightarrow> int list \<Rightarrow> tick list" where
  "polls ci H ts = map (\<lambda>t. (t, Some ci, H t)) ts"

fun is_activity :: "window_msg \<Rightarrow> bool" where
  "is_activity (WindowActivity a ti ts) = True"
| "is_activity (WindowAgentFinished a ti idle) = False"

definition activity_times :: "window_state \<Rightarrow> int list" where
  "activity_times s = map fst (filter (\<lambda>(t, m). is_activity m) (w_sent s))"

definition finished_times :: "window_state \<Rightarrow> int list" where
  "finished_times s = map fst (filter (\<lambda>(t, m). \<not> is_activity m) (w_sent s))"

section \<open>Observations and invariants of the watchers\<close>

text \<open>
  The delay the agent watcher's timeout gets, and the delay of the window watcher's
  confirmation timeout.
\<close>

definition agent_delay :: "agent_config \<Rightarrow> int" where
  "agent_delay c = setTimeout_delay (idleThreshold c)"

definition confirm_delay :: int where
  "confirm_delay = setTimeout_delay 2000"

text \<open>
  No change lies strictly inside the window of length \<open>L\<close> that ends with a finished
  message; finished messages are at least \<open>L\<close> apart.
\<close>

definition no_change_within :: "int \<Rightarrow> int list \<Rightarrow> int list \<Rightarrow> bool" where
  "no_change_within L changes finishes =
     (\<forall>tf \<in> set finishes. \<forall>tc \<in> set changes. \<not> (tf - L < tc \<and> tc < tf))"

definition spaced :: "int \<Rightarrow> int list \<Rightarrow> bool" where
  "spaced L ts = sorted_wrt (\<lambda>a b. a + L \<le> b) ts"

text \<open>
  What an \<^verbatim>\<open>agent-finished\<close> message sent at \<open>tf\<close> owes to the events seen so far:
  its file list is not empty, every file in it is the relative path of a changed or
  added file, and a change or add event arrived exactly one timeout delay before it.
\<close>

definition finished_ok :: "agent_config \<Rightarrow> (int \<times> fs_event) list \<Rightarrow> int \<times> agent_msg \<Rightarrow> bool" where
  "finished_ok c past m =
     (case m of (tf, AgentFinished files wp dur) \<Rightarrow>
        files \<noteq> [] \<and> set files \<subseteq> relative c (watchPath c) ` set (changed_paths past) \<and>
        tf - agent_delay c \<in> set (change_times past))"

text \<open>
  The timer table holds at most one timer, and the module variable holds its handle;
  handles are given out in increasing order.
\<close>

definition agent_wf :: "agent_state \<Rightarrow> bool" where
  "agent_wf s = (case a_timers s of
                   [] \<Rightarrow> True
                 | [(h, d, p)] \<Rightarrow> agentIdleTimer s = Some h \<and> h < a_next s
                 | _ \<Rightarrow> False)"

definition window_wf :: "window_state \<Rightarrow> bool" where
  "window_wf s = (case w_timers s of
                    [] \<Rightarrow> windowIdleTimer s = None
                  | [(h, d, p)] \<Rightarrow> windowIdleTimer s = Some h
                  | _ \<Rightarrow> False)"

text \<open>
  The invariants of a run: \<open>past\<close> are the events handled so far, \<open>clock\<close> the time
  up to which timers have fired.
\<close>

definition agent_inv :: "agent_config \<Rightarrow> (int \<times> fs_event) list \<Rightarrow> int \<Rightarrow> agent_state \<Rightarrow> bool" where
  "agent_inv c past clock s =
     (agent_wf s \<and>
      (hasSeenActivity s \<longrightarrow> changedFiles s \<noteq> []) \<and>
      set (changedFiles s) \<subseteq> relative c (watchPath c) ` set (changed_paths past) \<and>
      (\<forall>tf \<in> set (map fst (a_sent s)). tf \<le> clock) \<and>
      (\<forall>tc \<in> set (change_times past). tc \<le> clock) \<and>
      (\<forall>(h, d, p) \<in> set (a_timers s).
          clock < d \<and> d - agent_delay c \<in> set (change_times past) \<and>
          (\<forall>tc \<in> set (change_times past). tc \<le> d - agent_delay c) \<and>
          (\<forall>tf \<in> set (map fst (a_sent s)). tf \<le> d - agent_delay c)) \<and>
      no_change_within (agent_delay c) (change_times past) (map fst (a_sent s)) \<and>
      spaced (agent_delay c) (map fst (a_sent s)) \<and>
      (\<forall>m \<in> set (a_sent s). finished_ok c past m))"

definition window_inv :: "int \<Rightarrow> window_state \<Rightarrow> bool" where
  "window_inv clock s =
     (window_wf s \<and>
      (\<forall>t \<in> set (map fst (w_sent s)). t \<le> clock) \<and>
      (\<forall>(h, d, p) \<in> set (w_timers s).
          clock \<le> d \<and> (\<forall>t \<in> set (map fst (w_sent s)). t \<le> d - confirm_delay)) \<and>
      no_change_within confirm_delay (activity_times s) (finished_times s) \<and>
      spaced confirm_delay (finished_times s))"

text \<open>
  A window whose hash changes at 0, 1000 and 1800 ms and at no other time, and the
  states the watcher goes through while it is polled: \<open>stage t\<close> numbers the
  intervals between the changes, the arming of the confirmation timeout at 4800 ms and
  its firing at 6800 ms, and \<open>stage_state n\<close> describes the watcher in interval \<open>n\<close>.
\<close>

definition three_hashes :: "string option \<Rightarrow> string \<Rightarrow> string \<Rightarrow> string \<Rightarrow> int \<Rightarrow> string option" where
  "three_hashes h0 h1 h2 h3 t =
     (if t < 0 then h0 else if t < 1000 then Some h1 else if t < 1800 then Some h2 else Some h3)"

definition stage :: "int \<Rightarrow> nat" where
  "stage t = (if t < 0 then 0 else if t < 1000 then 1 else if t < 1800 then 2
              else if t < 4800 then 3 else if t < 6800 then 4 else 5)"

definition stage_state ::
  "string \<Rightarrow> string \<Rightarrow> string option \<Rightarrow> string \<Rightarrow> string \<Rightarrow> string \<Rightarrow> int \<Rightarrow> nat \<Rightarrow> window_state \<Rightarrow> bool" where
  "stage_state app title h0 h1 h2 h3 t0 n s =
     (windowWatcherEnabled s \<and> w_mainWindowOk s \<and> config_idleThreshold s = Some 3000 \<and>
      windowWatcherApp s = Some app \<and> window_wf s \<and>
      lastWindowHash s = (if n = 0 then h0 else if n = 1 then Some h1 else if n = 2 then Some h2 else Some h3) \<and>
      lastWindowActivity s = Some (if n = 0 then t0 else if n = 1 then 0 else if n = 2 then 1000 else 1800) \<and>
      (if n < 4 then w_timers s = []
       else if n = 4 then (\<exists>h. w_timers s = [(h, 6800, title)])
       else (\<forall>(h, d, p) \<in> set (w_timers s). 8800 < d)) \<and>
      w_sent s =
        (if n < 1 then [] else [(0, WindowActivity (Some app) title 0)]) @
        (if n < 2 then [] else [(1000, WindowActivity (Some app) title 1000)]) @
        (if n < 3 then [] else [(1800, WindowActivity (Some app) title 1800)]) @
        (if n < 5 then [] else [(6800, WindowAgentFinished (Some app) title 5000)]))"

section \<open>Example inputs\<close>

text \<open>
  An environment in which everything is installed and the engine asks for frames of 512
  samples at 16 kHz, an engine that never hears the keyword, and the listener started in
  that environment.
\<close>

definition env_ok :: env where
  "env_ok = \<lparr>record_loaded = True, Porcupine_loaded = True, Leopard_loaded = True,
     BuiltinKeyword = (\<lambda>k. True), keyword_file_exists = (\<lambda>k. True), model_file_exists = True,
     new_Porcupine = (\<lambda>k w. Inr (512, 16000)), new_Leopard = (\<lambda>k. None),
     record_record = None\<rparr>"

definition deaf :: engine where
  "deaf fs = Inr (- 1)"

definition listening512 :: audio_state where
  "listening512 = snd (startNativeWakeWordListening env_ok ''key'' ''jarvis'' (boot True))"

definition handle512 :: porcupine where
  "handle512 = \<lparr>p_frameLength = 512, p_sampleRate = 16000, fed = []\<rparr>"

text \<open>A recording session opened in that environment, before any audio has arrived.\<close>

definition recording_open :: audio_state where
  "recording_open = snd (startNativeLeopardRecording env_ok ''key'' (boot True))"

definition no_words :: transcriber where
  "no_words calls = Inr \<lparr>t_transcript = [], t_words = []\<rparr>"

text \<open>
  The scenario of three changes at 0, 1000 and 1800 ms with an idle threshold of 3000 ms:
  for the agent watcher as chokidar events under \<^verbatim>\<open>/proj\<close> (\<open>strip_root\<close> is
  \<^verbatim>\<open>path.relative\<close> on paths below the root); for the window watcher, started at
  -200 ms, as polls every 200 ms whose hash changes at those times.
\<close>

definition strip_root :: "string \<Rightarrow> string \<Rightarrow> string" where
  "strip_root root p = drop (length root + 1) p"

definition agent_3000 :: "agent_config \<times> agent_state" where
  "agent_3000 = startAgentWatcher ''/proj'' (Some 3000) strip_root (agent_boot True)"

definition scenario_changes :: "(int \<times> fs_event) list" where
  "scenario_changes = [(0, Ready), (0, Change ''/proj/a''), (1000, Change ''/proj/b''),
                       (1800, Change ''/proj/c'')]"

definition wi0 :: window_info where
  "wi0 = \<lparr>wi_index = 1, wi_bounds = (0, 0, 800, 600), wi_title = ''main.js''\<rparr>"

definition window_3000 :: window_state where
  "window_3000 = snd (startWindowWatcher (Some ''Cursor'') (Some 3000) (- 200) (Some wi0)
                        (Some ''h0'') (window_boot True))"

definition scenario_times :: "nat \<Rightarrow> int list" where
  "scenario_times n = map (\<lambda>k. 200 * int k) [0..<n]"

definition scenario_ticks :: "nat \<Rightarrow> tick list" where
  "scenario_ticks n = polls wi0 (three_hashes (Some ''h0'') ''h1'' ''h2'' ''h3'') (scenario_times n)"

section \<open>Properties of the frame loop\<close>

lemma process_one_fields:
  "bytesPerFrame (process_one eng h s) = bytesPerFrame s"
  "frameLength (process_one eng h s) = frameLength s"
  "porcupineListening (process_one eng h s) = porcupineListening s"
  "mainWindowOk (process_one eng h s) = mainWindowOk s"
  "audioBuffer (process_one eng h s) = drop (bytesPerFrame s) (audioBuffer s)"
  "porcupineHandle (process_one eng h s) =
     Some (h\<lparr>fed := fed h @ [Int16Array (take (bytesPerFrame s) (audioBuffer s)) (frameLength s)]\<rparr>)"
  by (simp_all add: process_one_def Let_def split: sum.splits)

lemma process_one_append:
  "bytesPerFrame s \<le> length (audioBuffer s) \<Longrightarrow>
   process_one eng h (s\<lparr>audioBuffer := audioBuffer s @ d\<rparr>) =
   (process_one eng h s)\<lparr>audioBuffer := audioBuffer (process_one eng h s) @ d\<rparr>"
  by (simp add: process_one_def Let_def split: sum.splits)

lemma process_frames_returns:
  assumes "0 < bytesPerFrame s"
  shows "\<exists>s'. process_frames eng s = Some s' \<and> bytesPerFrame s' = bytesPerFrame s \<and>
           frameLength s' = frameLength s \<and> porcupineListening s' = porcupineListening s \<and>
           mainWindowOk s' = mainWindowOk s \<and>
           (porcupineHandle s \<noteq> None \<longrightarrow> porcupineHandle s' \<noteq> None) \<and>
           length (audioBuffer s') < bytesPerFrame s"
  using assms
proof (induction "length (audioBuffer s)" arbitrary: s rule: less_induct)
  case less
  show ?case
  proof (cases "bytesPerFrame s \<le> length (audioBuffer s)")
    case False
    then show ?thesis by (subst process_frames.simps) simp
  next
    case True
    show ?thesis
    proof (cases "porcupineHandle s")
      case None
      let ?t = "s\<lparr>audioBuffer := drop (bytesPerFrame s) (audioBuffer s)\<rparr>"
      have "length (audioBuffer ?t) < length (audioBuffer s)" using True less.prems by simp
      from less.hyps [OF this] less.prems
      obtain s' where "process_frames eng ?t = Some s'" "bytesPerFrame s' = bytesPerFrame s"
        "frameLength s' = frameLength s" "porcupineListening s' = porcupineListening s"
        "mainWindowOk s' = mainWindowOk s" "length (audioBuffer s') < bytesPerFrame s"
        by auto
      with True None show ?thesis by (subst process_frames.simps) simp
    next
      case (Some h)
      let ?t = "process_one eng h s"
      have "length (audioBuffer ?t) < length (audioBuffer s)"
        using True less.prems by (simp add: process_one_fields)
      from less.hyps [OF this] less.prems
      obtain s' where "process_frames eng ?t = Some s'" "bytesPerFrame s' = bytesPerFrame s"
        "frameLength s' = frameLength s" "porcupineListening s' = porcupineListening s"
        "mainWindowOk s' = mainWindowOk s" "porcupineHandle s' \<noteq> None"
        "length (audioBuffer s') < bytesPerFrame s"
        by (auto simp: process_one_fields)
      with True Some show ?thesis by (subst process_frames.simps) simp
    qed
  qed
qed

lemma process_frames_append:
  assumes "0 < bytesPerFrame s" and "process_frames eng s = Some s'"
  shows "process_frames eng (s\<lparr>audioBuffer := audioBuffer s @ d\<rparr>) =
         process_frames eng (s'\<lparr>audioBuffer := audioBuffer s' @ d\<rparr>)"
  using assms
proof (induction "length (audioBuffer s)" arbitrary: s rule: less_induct)
  case less
  show ?case
  proof (cases "bytesPerFrame s \<le> length (audioBuffer s)")
    case False
    with less.prems(2) have "s' = s" by (subst (asm) process_frames.simps) simp
    then show ?thesis by simp
  next
    case True
    show ?thesis
    proof (cases "porcupineHandle s")
      case None
      let ?t = "s\<lparr>audioBuffer := drop (bytesPerFrame s) (audioBuffer s)\<rparr>"
      have shorter: "length (audioBuffer ?t) < length (audioBuffer s)"
        using True less.prems by simp
      have t: "process_frames eng ?t = Some s'"
        using less.prems(2) True None by (subst (asm) process_frames.simps) simp
      have "process_frames eng (s\<lparr>audioBuffer := audioBuffer s @ d\<rparr>) =
            process_frames eng (?t\<lparr>audioBuffer := audioBuffer ?t @ d\<rparr>)"
        using True None by (subst process_frames.simps) simp
      also have "\<dots> = process_frames eng (s'\<lparr>audioBuffer := audioBuffer s' @ d\<rparr>)"
        using less.hyps [OF shorter _ t] less.prems(1) by simp
      finally show ?thesis .
    next
      case (Some h)
      let ?t = "process_one eng h s"
      have shorter: "length (audioBuffer ?t) < length (audioBuffer s)"
        using True less.prems by (simp add: process_one_fields)
      have t: "process_frames eng ?t = Some s'"
        using less.prems(2) True Some by (subst (asm) process_frames.simps) simp
      have "process_frames eng (s\<lparr>audioBuffer := audioBuffer s @ d\<rparr>) =
            process_frames eng (?t\<lparr>audioBuffer := audioBuffer ?t @ d\<rparr>)"
        using True Some by (subst process_frames.simps) (simp add: process_one_append)
      also have "\<dots> = process_frames eng (s'\<lparr>audioBuffer := audioBuffer s' @ d\<rparr>)"
        using less.hyps [OF shorter _ t] less.prems(1) by (simp add: process_one_fields)
      finally show ?thesis .
    qed
  qed
qed


lemma length_int16_view: "length (int16_view bs) = length bs div 2"
  by (induction bs rule: int16_view.induct) simp_all

lemma byte_view_int16_view: "even (length bs) \<Longrightarrow> byte_view (int16_view bs) = bs"
proof (induction bs rule: int16_view.induct)
  case (1 lo hi bs)
  have "ucast (word_cat hi lo :: int16) = lo"
    by (rule bit_word_eqI; simp add: bit_simps)
  moreover have "ucast (drop_bit 8 (word_cat hi lo :: int16)) = hi"
    by (rule bit_word_eqI; simp add: bit_simps)
  ultimately show ?case using 1 by simp
qed simp_all

lemma Int16Array_frame:
  assumes "2 * n \<le> length buf"
  shows "length (Int16Array (take (2 * n) buf) n) = n"
    and "byte_view (Int16Array (take (2 * n) buf) n) = take (2 * n) buf"
proof -
  have len: "length (take (2 * n) buf) = 2 * n" using assms by simp
  then have "length (int16_view (take (2 * n) buf)) = n"
    by (simp only: length_int16_view)
  then have whole: "Int16Array (take (2 * n) buf) n = int16_view (take (2 * n) buf)"
    by (simp add: Int16Array_def)
  show "length (Int16Array (take (2 * n) buf) n) = n"
    using \<open>length (int16_view (take (2 * n) buf)) = n\<close> whole by simp
  have "even (length (take (2 * n) buf))" by (simp only: len) simp
  then show "byte_view (Int16Array (take (2 * n) buf) n) = take (2 * n) buf"
    by (simp only: whole byte_view_int16_view)
qed

lemma process_frames_conserves:
  assumes "0 < frameLength s" and "bytesPerFrame s = 2 * frameLength s"
    and "porcupineHandle s = Some h" and "process_frames eng s = Some s'"
  shows "\<exists>fs. porcupineHandle s' = Some (h\<lparr>fed := fed h @ fs\<rparr>) \<and>
           (\<forall>f \<in> set fs. length f = frameLength s) \<and>
           concat (map byte_view fs) @ audioBuffer s' = audioBuffer s"
  using assms
proof (induction "length (audioBuffer s)" arbitrary: s h rule: less_induct)
  case less
  show ?case
  proof (cases "bytesPerFrame s \<le> length (audioBuffer s)")
    case False
    with less.prems(4) have "s' = s" by (subst (asm) process_frames.simps) simp
    with less.prems(3) have "porcupineHandle s' = Some (h\<lparr>fed := fed h @ []\<rparr>) \<and>
           (\<forall>f \<in> set []. length f = frameLength s) \<and>
           concat (map byte_view []) @ audioBuffer s' = audioBuffer s" by simp
    then show ?thesis by blast
  next
    case True
    let ?n = "frameLength s"
    let ?f = "Int16Array (take (2 * ?n) (audioBuffer s)) ?n"
    let ?h = "h\<lparr>fed := fed h @ [?f]\<rparr>"
    let ?t = "process_one eng h s"
    have enough: "2 * ?n \<le> length (audioBuffer s)" using True less.prems(2) by simp
    have shorter: "length (audioBuffer ?t) < length (audioBuffer s)"
      using True less.prems by (simp add: process_one_fields)
    have t: "process_frames eng ?t = Some s'"
      using less.prems True by (subst (asm) process_frames.simps) simp
    have th: "porcupineHandle ?t = Some ?h"
      using less.prems(2) by (simp add: process_one_fields)
    from less.hyps [OF shorter _ _ th t] less.prems(1,2)
    obtain fs where fs: "porcupineHandle s' = Some (?h\<lparr>fed := fed ?h @ fs\<rparr>)"
      "\<forall>f \<in> set fs. length f = ?n"
      "concat (map byte_view fs) @ audioBuffer s' = audioBuffer ?t"
      by (auto simp: process_one_fields)
    have "porcupineHandle s' = Some (h\<lparr>fed := fed h @ (?f # fs)\<rparr>)"
      using fs(1) by simp
    moreover have "\<forall>f \<in> set (?f # fs). length f = ?n"
      using fs(2) Int16Array_frame(1) [OF enough] by simp
    moreover have "concat (map byte_view (?f # fs)) @ audioBuffer s' = audioBuffer s"
    proof -
      have "concat (map byte_view (?f # fs)) @ audioBuffer s' =
            take (2 * ?n) (audioBuffer s) @ (concat (map byte_view fs) @ audioBuffer s')"
        using Int16Array_frame(2) [OF enough] by simp
      also have "\<dots> = take (2 * ?n) (audioBuffer s) @ drop (2 * ?n) (audioBuffer s)"
        using fs(3) less.prems(2) by (simp add: process_one_fields)
      finally show ?thesis by simp
    qed
    ultimately show ?thesis by blast
  qed
qed

lemma audio_data_one_frame:
  assumes "porcupineListening s" and "porcupineHandle s = Some h" and "0 < bytesPerFrame s"
    and "bytesPerFrame s \<le> length (audioBuffer s @ data)"
    and "length (audioBuffer s @ data) < 2 * bytesPerFrame s"
  shows "audio_data eng s data = Some (process_one eng h (s\<lparr>audioBuffer := audioBuffer s @ data\<rparr>))"
proof -
  let ?u = "s\<lparr>audioBuffer := audioBuffer s @ data\<rparr>"
  let ?t = "process_one eng h ?u"
  have "length (audioBuffer ?t) = length (audioBuffer s @ data) - bytesPerFrame s"
    by (simp only: process_one_fields length_drop) simp
  then have "\<not> bytesPerFrame ?t \<le> length (audioBuffer ?t)"
    using assms(3,4,5) by (simp only: process_one_fields) simp
  then have "process_frames eng ?t = Some ?t"
    by (subst process_frames.simps) (simp only: if_False)
  moreover have "process_frames eng ?u = process_frames eng ?t"
    using assms by (subst process_frames.simps) simp
  ultimately show ?thesis using assms by (simp add: audio_data_def)
qed

lemma feed_conserves:
  assumes "porcupineListening s" and "porcupineHandle s = Some h" and "0 < frameLength s"
    and "bytesPerFrame s = 2 * frameLength s"
  shows "\<exists>s' fs. feed eng s chunks = Some s' \<and> porcupineHandle s' = Some (h\<lparr>fed := fed h @ fs\<rparr>) \<and>
           (\<forall>f \<in> set fs. length f = frameLength s) \<and>
           concat (map byte_view fs) @ audioBuffer s' = audioBuffer s @ concat chunks \<and>
           (chunks \<noteq> [] \<longrightarrow> length (audioBuffer s') < bytesPerFrame s)"
  using assms
proof (induction chunks arbitrary: s h)
  case Nil
  have "feed eng s [] = Some s \<and> porcupineHandle s = Some (h\<lparr>fed := fed h @ []\<rparr>) \<and>
        (\<forall>f \<in> set []. length f = frameLength s) \<and>
        concat (map byte_view []) @ audioBuffer s = audioBuffer s @ concat [] \<and>
        ([] \<noteq> ([]::byte list list) \<longrightarrow> length (audioBuffer s) < bytesPerFrame s)"
    using Nil by simp
  then show ?case by blast
next
  case (Cons c cs)
  let ?u = "s\<lparr>audioBuffer := audioBuffer s @ c\<rparr>"
  have pos: "0 < bytesPerFrame ?u" using Cons.prems by simp
  from process_frames_returns [OF pos, of eng]
  obtain s1 where s1: "process_frames eng ?u = Some s1" "bytesPerFrame s1 = bytesPerFrame s"
    "frameLength s1 = frameLength s" "porcupineListening s1 = porcupineListening s"
    "length (audioBuffer s1) < bytesPerFrame s"
    by auto
  have ad: "audio_data eng s c = Some s1"
    using s1(1) Cons.prems by (simp add: audio_data_def)
  from process_frames_conserves [of ?u h eng s1] Cons.prems s1(1)
  obtain fs1 where fs1: "porcupineHandle s1 = Some (h\<lparr>fed := fed h @ fs1\<rparr>)"
    "\<forall>f \<in> set fs1. length f = frameLength s"
    "concat (map byte_view fs1) @ audioBuffer s1 = audioBuffer s @ c"
    by auto
  from Cons.IH [of s1 "h\<lparr>fed := fed h @ fs1\<rparr>"] s1 fs1(1) Cons.prems
  obtain s' fs2 where rest: "feed eng s1 cs = Some s'"
    "porcupineHandle s' = Some (h\<lparr>fed := fed h @ fs1 @ fs2\<rparr>)"
    "\<forall>f \<in> set fs2. length f = frameLength s"
    "concat (map byte_view fs2) @ audioBuffer s' = audioBuffer s1 @ concat cs"
    "cs \<noteq> [] \<longrightarrow> length (audioBuffer s') < bytesPerFrame s"
    by auto
  have short: "length (audioBuffer s') < bytesPerFrame s"
  proof (cases cs)
    case Nil
    with rest(1) s1(5) show ?thesis by simp
  next
    case (Cons a list)
    with rest(5) show ?thesis by simp
  qed
  have "concat (map byte_view (fs1 @ fs2)) @ audioBuffer s' =
        concat (map byte_view fs1) @ (concat (map byte_view fs2) @ audioBuffer s')"
    by simp
  also have "\<dots> = (concat (map byte_view fs1) @ audioBuffer s1) @ concat cs"
    by (simp only: rest(4) append_assoc)
  also have "\<dots> = audioBuffer s @ concat (c # cs)"
    by (simp only: fs1(3)) simp
  finally have bytes: "concat (map byte_view (fs1 @ fs2)) @ audioBuffer s' = audioBuffer s @ concat (c # cs)" .
  have "feed eng s (c # cs) = Some s'" using ad rest(1) by simp
  moreover have "\<forall>f \<in> set (fs1 @ fs2). length f = frameLength s"
    using fs1(2) rest(3) by auto
  ultimately show ?case using rest(2) bytes short by blast
qed

lemma feed_eq_audio_data:
  assumes "porcupineListening s" and "porcupineHandle s \<noteq> None" and "0 < bytesPerFrame s"
    and "length (audioBuffer s) < bytesPerFrame s"
  shows "\<exists>s'. feed eng s chunks = Some s' \<and> audio_data eng s (concat chunks) = Some s'"
  using assms
proof (induction chunks arbitrary: s)
  case Nil
  have "process_frames eng s = Some s"
    using Nil.prems by (subst process_frames.simps) simp
  then show ?case using Nil.prems by (auto simp add: audio_data_def)
next
  case (Cons c cs)
  let ?u = "s\<lparr>audioBuffer := audioBuffer s @ c\<rparr>"
  have pos: "0 < bytesPerFrame ?u" using Cons.prems by simp
  from process_frames_returns [OF pos, of eng] Cons.prems
  obtain s1 where s1: "process_frames eng ?u = Some s1" "bytesPerFrame s1 = bytesPerFrame s"
    "porcupineListening s1" "porcupineHandle s1 \<noteq> None"
    "length (audioBuffer s1) < bytesPerFrame s"
    by auto
  have ad: "audio_data eng s c = Some s1"
    using s1(1) Cons.prems by (auto simp add: audio_data_def)
  from Cons.IH [of s1] s1 Cons.prems
  obtain s' where rest: "feed eng s1 cs = Some s'" "audio_data eng s1 (concat cs) = Some s'"
    by auto
  have "audio_data eng s (concat (c # cs)) =
        process_frames eng (?u\<lparr>audioBuffer := audioBuffer ?u @ concat cs\<rparr>)"
    using Cons.prems by (auto simp add: audio_data_def)
  also have "\<dots> = process_frames eng (s1\<lparr>audioBuffer := audioBuffer s1 @ concat cs\<rparr>)"
    by (rule process_frames_append [OF pos s1(1)])
  also have "\<dots> = Some s'"
    using rest(2) s1(3,4) by (auto simp add: audio_data_def)
  finally show ?case using ad rest(1) by simp
qed


lemma listening512_fields:
  "porcupineListening listening512" "porcupineHandle listening512 = Some handle512"
  "frameLength listening512 = 512" "bytesPerFrame listening512 = 1024"
  "audioBuffer listening512 = []"
  by (simp_all add: listening512_def startNativeWakeWordListening_def env_ok_def boot_def
      stopNativeWakeWordListening_def handle512_def Let_def)

lemma start_establishes:
  assumes "startNativeWakeWordListening e accessKey keyword s = (WakeStarted sr fl, s')"
  shows "porcupineListening s' \<and> porcupineHandle s' = Some \<lparr>p_frameLength = fl, p_sampleRate = sr, fed = []\<rparr> \<and>
         frameLength s' = fl \<and> bytesPerFrame s' = 2 * fl \<and> audioBuffer s' = []"
  using assms
  by (auto simp: startNativeWakeWordListening_def Let_def split: if_splits sum.splits option.splits prod.splits)

text \<open>
  Claim C1. For a listener that is listening, with a positive frame size and less than
  one frame buffered (as it is after a start and after every \<^verbatim>\<open>data\<close> event),
  feeding a byte sequence chunk by chunk returns, and leaves the same state as feeding
  the concatenation in one event: the same frames handed to the engine in the same
  order, the same detections sent, the same residual bytes. With 512 samples per frame,
  1500 bytes and then 1500 bytes give one frame per event with 476 and then 952 bytes
  left, and the state a single event of 3000 bytes gives.
\<close>

theorem frame_buffer_split_invariance:
  assumes "porcupineListening s" and "porcupineHandle s = Some h"
    and "0 < bytesPerFrame s" and "length (audioBuffer s) < bytesPerFrame s"
  shows "(\<exists>s'. feed eng s chunks = Some s' \<and> audio_data eng s (concat chunks) = Some s') \<and>
         (frameLength s = 512 \<and> bytesPerFrame s = 1024 \<and> audioBuffer s = [] \<and>
          length a = 1500 \<and> length b = 1500 \<longrightarrow>
          (\<exists>s1 s2. audio_data eng s a = Some s1 \<and>
             porcupineHandle s1 = Some (h\<lparr>fed := fed h @ [Int16Array (take 1024 a) 512]\<rparr>) \<and>
             length (audioBuffer s1) = 476 \<and>
             audio_data eng s1 b = Some s2 \<and>
             porcupineHandle s2 = Some (h\<lparr>fed := fed h @ [Int16Array (take 1024 a) 512,
                                            Int16Array (take 1024 (drop 1024 a @ b)) 512]\<rparr>) \<and>
             length (audioBuffer s2) = 952 \<and>
             audio_data eng s (a @ b) = Some s2))"
proof
  show "\<exists>s'. feed eng s chunks = Some s' \<and> audio_data eng s (concat chunks) = Some s'"
    using feed_eq_audio_data [of s eng chunks] assms by simp
next
  show "frameLength s = 512 \<and> bytesPerFrame s = 1024 \<and> audioBuffer s = [] \<and>
          length a = 1500 \<and> length b = 1500 \<longrightarrow>
          (\<exists>s1 s2. audio_data eng s a = Some s1 \<and>
             porcupineHandle s1 = Some (h\<lparr>fed := fed h @ [Int16Array (take 1024 a) 512]\<rparr>) \<and>
             length (audioBuffer s1) = 476 \<and>
             audio_data eng s1 b = Some s2 \<and>
             porcupineHandle s2 = Some (h\<lparr>fed := fed h @ [Int16Array (take 1024 a) 512,
                                            Int16Array (take 1024 (drop 1024 a @ b)) 512]\<rparr>) \<and>
             length (audioBuffer s2) = 952 \<and>
             audio_data eng s (a @ b) = Some s2)"
  proof
    assume sc: "frameLength s = 512 \<and> bytesPerFrame s = 1024 \<and> audioBuffer s = [] \<and>
          length a = 1500 \<and> length b = 1500"
    let ?s1 = "process_one eng h (s\<lparr>audioBuffer := audioBuffer s @ a\<rparr>)"
    let ?h1 = "h\<lparr>fed := fed h @ [Int16Array (take 1024 a) 512]\<rparr>"
    let ?s2 = "process_one eng ?h1 (?s1\<lparr>audioBuffer := audioBuffer ?s1 @ b\<rparr>)"
    have a1: "audio_data eng s a = Some ?s1"
      using assms sc by (intro audio_data_one_frame) simp_all
    have h1: "porcupineHandle ?s1 = Some ?h1"
      using sc by (simp add: process_one_fields)
    have b1: "audioBuffer ?s1 = drop 1024 a"
      using sc by (simp add: process_one_fields)
    have l1: "length (audioBuffer ?s1) = 476"
      using sc by (simp add: process_one_fields)
    have f1: "porcupineListening ?s1" "bytesPerFrame ?s1 = 1024" "frameLength ?s1 = 512"
      using assms sc by (simp_all add: process_one_fields)
    have a2: "audio_data eng ?s1 b = Some ?s2"
      using f1 h1 l1 sc by (intro audio_data_one_frame) simp_all
    have h2: "porcupineHandle ?s2 = Some (h\<lparr>fed := fed h @ [Int16Array (take 1024 a) 512,
                                            Int16Array (take 1024 (drop 1024 a @ b)) 512]\<rparr>)"
      using f1 b1 by (simp add: process_one_fields)
    have l2: "length (audioBuffer ?s2) = 952"
      using f1 l1 sc by (simp add: process_one_fields)
    from feed_eq_audio_data [of s eng "[a, b]"] assms
    obtain s' where "feed eng s [a, b] = Some s'" "audio_data eng s (concat [a, b]) = Some s'"
      by auto
    with a1 a2 have whole: "audio_data eng s (a @ b) = Some ?s2" by simp
    show "\<exists>s1 s2. audio_data eng s a = Some s1 \<and>
             porcupineHandle s1 = Some (h\<lparr>fed := fed h @ [Int16Array (take 1024 a) 512]\<rparr>) \<and>
             length (audioBuffer s1) = 476 \<and>
             audio_data eng s1 b = Some s2 \<and>
             porcupineHandle s2 = Some (h\<lparr>fed := fed h @ [Int16Array (take 1024 a) 512,
                                            Int16Array (take 1024 (drop 1024 a @ b)) 512]\<rparr>) \<and>
             length (audioBuffer s2) = 952 \<and>
             audio_data eng s (a @ b) = Some s2"
      using a1 h1 l1 a2 h2 l2 whole by blast
  qed
qed

theorem frame_buffer_split_invariance_witness:
  "(\<exists>s'. feed deaf listening512 [replicate 1500 1, replicate 1500 2] = Some s' \<and>
         audio_data deaf listening512 (concat [replicate 1500 1, replicate 1500 2]) = Some s') \<and>
   (\<exists>s1 s2. audio_data deaf listening512 (replicate 1500 1) = Some s1 \<and>
      porcupineHandle s1 = Some (handle512\<lparr>fed := [Int16Array (take 1024 (replicate 1500 1)) 512]\<rparr>) \<and>
      length (audioBuffer s1) = 476 \<and>
      audio_data deaf s1 (replicate 1500 2) = Some s2 \<and>
      porcupineHandle s2 = Some (handle512\<lparr>fed := [Int16Array (take 1024 (replicate 1500 1)) 512,
           Int16Array (take 1024 (drop 1024 (replicate 1500 1) @ replicate 1500 2)) 512]\<rparr>) \<and>
      length (audioBuffer s2) = 952 \<and>
      audio_data deaf listening512 (replicate 1500 1 @ replicate 1500 2) = Some s2)"
  using frame_buffer_split_invariance [of listening512 handle512 deaf
      "[replicate 1500 1, replicate 1500 2]" "replicate 1500 1" "replicate 1500 2"]
  by (simp add: listening512_fields handle512_def)

text \<open>
  Claim C7. For every sequence of chunks, the frames handed to the engine each hold
  exactly \<open>frameLength\<close> samples, and the bytes of those frames followed by the bytes
  left in the buffer are the bytes that were in the buffer followed by the chunks: none
  is dropped, duplicated or reordered, and less than one frame is left over.
\<close>

theorem frames_whole_and_bytes_kept:
  assumes "porcupineListening s" and "porcupineHandle s = Some h" and "0 < frameLength s"
    and "bytesPerFrame s = 2 * frameLength s"
  shows "\<exists>s' fs. feed eng s chunks = Some s' \<and> porcupineHandle s' = Some (h\<lparr>fed := fed h @ fs\<rparr>) \<and>
           (\<forall>f \<in> set fs. length f = frameLength s) \<and>
           concat (map byte_view fs) @ audioBuffer s' = audioBuffer s @ concat chunks \<and>
           (chunks \<noteq> [] \<longrightarrow> length (audioBuffer s') < bytesPerFrame s)"
  using assms by (rule feed_conserves)

theorem frames_whole_and_bytes_kept_witness:
  "\<exists>s' fs. feed deaf listening512 [replicate 1500 1, replicate 1500 2] = Some s' \<and>
     porcupineHandle s' = Some (handle512\<lparr>fed := fs\<rparr>) \<and>
     (\<forall>f \<in> set fs. length f = 512) \<and>
     concat (map byte_view fs) @ audioBuffer s' = replicate 1500 1 @ replicate 1500 2 \<and>
     length (audioBuffer s') < 1024"
  using frames_whole_and_bytes_kept [of listening512 handle512 deaf "[replicate 1500 1, replicate 1500 2]"]
  by (simp add: listening512_fields handle512_def)


section \<open>Starting and stopping the audio components\<close>

lemma recording_open_fields:
  "leopardRecording recording_open = Some \<lparr>rec_capture = 0, audioChunks = Some []\<rparr>"
  "leopardHandle recording_open = Some \<lparr>l_released = False, l_calls = []\<rparr>"
  "porcupineListening recording_open = False" "audioInputStream recording_open = None"
  "porcupineHandle recording_open = None"
  "captures recording_open = [\<lparr>cap_sampleRate = 16000, cap_running = True\<rparr>]"
  by (simp_all add: recording_open_def startNativeLeopardRecording_def env_ok_def boot_def Let_def)

lemma listening512_more:
  "captures listening512 = [\<lparr>cap_sampleRate = 16000, cap_running = True\<rparr>]"
  "audioInputStream listening512 = Some 0" "leopardRecording listening512 = None"
  "leopardHandle listening512 = None" "leopardAccessKey listening512 = None"
  by (simp_all add: listening512_def startNativeWakeWordListening_def env_ok_def boot_def
      stopNativeWakeWordListening_def Let_def)

lemma env_ok_fields:
  "record_loaded env_ok" "Porcupine_loaded env_ok" "Leopard_loaded env_ok"
  "BuiltinKeyword env_ok k" "keyword_file_exists env_ok k" "model_file_exists env_ok"
  "new_Porcupine env_ok a k = Inr (512, 16000)" "new_Leopard env_ok a = None"
  "record_record env_ok = None"
  by (simp_all add: env_ok_def)

text \<open>
  Claim C8. Stopping a recording session whose chunk array is empty (or was never set)
  returns \<^verbatim>\<open>{success: false, error: 'No audio recorded'}\<close> and leaves the Leopard
  handle as it was: \<^verbatim>\<open>leopardHandle.process\<close> is not called. The session is closed.
\<close>

theorem stop_without_audio:
  assumes "leopardRecording s = Some r" and "audioChunks r = None \<or> audioChunks r = Some []"
  shows "fst (stopNativeLeopardRecording leo s) = NoAudioRecorded \<and>
         leopardHandle (snd (stopNativeLeopardRecording leo s)) = leopardHandle s \<and>
         leopardRecording (snd (stopNativeLeopardRecording leo s)) = None"
  using assms by (auto simp: stopNativeLeopardRecording_def Let_def)

theorem stop_without_audio_witness:
  "fst (stopNativeLeopardRecording no_words recording_open) = NoAudioRecorded \<and>
   leopardHandle (snd (stopNativeLeopardRecording no_words recording_open)) =
     Some \<lparr>l_released = False, l_calls = []\<rparr> \<and>
   leopardRecording (snd (stopNativeLeopardRecording no_words recording_open)) = None"
  using stop_without_audio [of recording_open "\<lparr>rec_capture = 0, audioChunks = Some []\<rparr>" no_words]
  by (simp add: recording_open_fields)

lemma stop_with_audio_calls_engine:
  assumes "leopardRecording s = Some r" and "audioChunks r = Some (c # cs)"
    and "leopardHandle s = Some h"
  shows "\<exists>h'. leopardHandle (snd (stopNativeLeopardRecording leo s)) = Some h' \<and>
           l_calls h' = l_calls h @ [Int16Array (concat (c # cs)) (length (concat (c # cs)) div 2)]"
  using assms by (auto simp: stopNativeLeopardRecording_def Let_def split: sum.splits)

text \<open>
  Claim C4, as stated, fails: with everything installed, starting a recording while the
  listener is listening succeeds and leaves two capture processes running, and so does
  starting the listener while a recording session is open.
\<close>

theorem conflict_not_detected_counterexample:
  "fst (startNativeLeopardRecording env_ok ''key'' listening512) = LeopardStarted \<and>
   running_captures (snd (startNativeLeopardRecording env_ok ''key'' listening512)) = 2 \<and>
   fst (startNativeWakeWordListening env_ok ''key'' ''jarvis'' recording_open) = WakeStarted 16000 512 \<and>
   running_captures (snd (startNativeWakeWordListening env_ok ''key'' ''jarvis'' recording_open)) = 2"
  by (simp add: startNativeLeopardRecording_def startNativeWakeWordListening_def
      stopNativeWakeWordListening_def listening512_more listening512_fields recording_open_fields
      env_ok_fields running_captures_def Let_def)

text \<open>
  Claim C4, amended. Neither start function looks at the other component. While the
  listener is listening, \<^verbatim>\<open>startNativeLeopardRecording\<close> (modules loaded, engine and
  capture starting without error) returns success and starts one more capture process,
  and the listener keeps its handle and its stream. While a recording session is open
  and the listener is idle, \<^verbatim>\<open>startNativeWakeWordListening\<close> (modules loaded, keyword
  known, files present, engine and capture starting without error) returns success and
  starts one more capture process, and the recording session is kept.
\<close>

theorem starts_ignore_each_other:
  "(porcupineListening s \<and> record_loaded e \<and> Leopard_loaded e \<and> new_Leopard e key = None \<and>
    record_record e = None \<longrightarrow>
      fst (startNativeLeopardRecording e key s) = LeopardStarted \<and>
      captures (snd (startNativeLeopardRecording e key s)) =
        captures s @ [\<lparr>cap_sampleRate = 16000, cap_running = True\<rparr>] \<and>
      porcupineListening (snd (startNativeLeopardRecording e key s)) \<and>
      audioInputStream (snd (startNativeLeopardRecording e key s)) = audioInputStream s \<and>
      porcupineHandle (snd (startNativeLeopardRecording e key s)) = porcupineHandle s) \<and>
   (leopardRecording s \<noteq> None \<and> \<not> porcupineListening s \<and> audioInputStream s = None \<and>
    record_loaded e \<and> Porcupine_loaded e \<and> BuiltinKeyword e keyword \<and>
    keyword_file_exists e keyword \<and> model_file_exists e \<and>
    new_Porcupine e key keyword = Inr (fl, sr) \<and> record_record e = None \<longrightarrow>
      fst (startNativeWakeWordListening e key keyword s) = WakeStarted sr fl \<and>
      captures (snd (startNativeWakeWordListening e key keyword s)) =
        captures s @ [\<lparr>cap_sampleRate = sr, cap_running = True\<rparr>] \<and>
      leopardRecording (snd (startNativeWakeWordListening e key keyword s)) = leopardRecording s \<and>
      leopardHandle (snd (startNativeWakeWordListening e key keyword s)) = leopardHandle s)"
  by (auto simp: startNativeLeopardRecording_def startNativeWakeWordListening_def
      stopNativeWakeWordListening_def Let_def split: option.splits)

theorem starts_ignore_each_other_witness:
  "(fst (startNativeLeopardRecording env_ok ''key'' listening512) = LeopardStarted \<and>
      captures (snd (startNativeLeopardRecording env_ok ''key'' listening512)) =
        [\<lparr>cap_sampleRate = 16000, cap_running = True\<rparr>, \<lparr>cap_sampleRate = 16000, cap_running = True\<rparr>] \<and>
      porcupineListening (snd (startNativeLeopardRecording env_ok ''key'' listening512)) \<and>
      audioInputStream (snd (startNativeLeopardRecording env_ok ''key'' listening512)) = Some 0 \<and>
      porcupineHandle (snd (startNativeLeopardRecording env_ok ''key'' listening512)) = Some handle512) \<and>
   (fst (startNativeWakeWordListening env_ok ''key'' ''jarvis'' recording_open) = WakeStarted 16000 512 \<and>
      captures (snd (startNativeWakeWordListening env_ok ''key'' ''jarvis'' recording_open)) =
        [\<lparr>cap_sampleRate = 16000, cap_running = True\<rparr>, \<lparr>cap_sampleRate = 16000, cap_running = True\<rparr>] \<and>
      leopardRecording (snd (startNativeWakeWordListening env_ok ''key'' ''jarvis'' recording_open)) =
        Some \<lparr>rec_capture = 0, audioChunks = Some []\<rparr> \<and>
      leopardHandle (snd (startNativeWakeWordListening env_ok ''key'' ''jarvis'' recording_open)) =
        Some \<lparr>l_released = False, l_calls = []\<rparr>)"
  using starts_ignore_each_other [of listening512 env_ok "''key''" "''jarvis''" 512 16000]
    starts_ignore_each_other [of recording_open env_ok "''key''" "''jarvis''" 512 16000]
  by (simp add: listening512_fields listening512_more recording_open_fields env_ok_fields)

text \<open>
  Claim C5, as stated, fails: a second \<^verbatim>\<open>startNativeWakeWordListening\<close> while
  listening returns an object with \<^verbatim>\<open>success: true\<close>, not an error.
\<close>

theorem duplicate_start_counterexample:
  "fst (startNativeWakeWordListening env_ok ''key'' ''jarvis'' listening512) = AlreadyListening \<and>
   wake_success (fst (startNativeWakeWordListening env_ok ''key'' ''jarvis'' listening512))"
  by (simp add: startNativeWakeWordListening_def listening512_fields env_ok_fields)

text \<open>
  \<^verbatim>\<open>startNativeLeopardRecording\<close> has no such test: called while a session is open, it
  starts another capture process and replaces \<^verbatim>\<open>leopardRecording\<close>, and the first
  process keeps running with nothing left that refers to it.
\<close>

lemma leopard_second_start:
  assumes "leopardRecording s = Some r" and "rec_capture r < length (captures s)"
    and "record_loaded e" and "Leopard_loaded e" and "new_Leopard e key = None"
    and "record_record e = None"
  shows "fst (startNativeLeopardRecording e key s) = LeopardStarted \<and>
         captures (snd (startNativeLeopardRecording e key s)) =
           captures s @ [\<lparr>cap_sampleRate = 16000, cap_running = True\<rparr>] \<and>
         leopardRecording (snd (startNativeLeopardRecording e key s)) =
           Some \<lparr>rec_capture = length (captures s), audioChunks = Some []\<rparr>"
  using assms by (auto simp: startNativeLeopardRecording_def Let_def split: option.splits)

text \<open>
  Claim C5, amended. \<^verbatim>\<open>startNativeWakeWordListening\<close> called while already listening
  returns \<^verbatim>\<open>{success: true, message: 'Already listening'}\<close> and changes nothing: no
  second capture process is started and the first is not stopped.
\<close>

theorem duplicate_wake_start_is_noop:
  assumes "record_loaded e" and "Porcupine_loaded e" and "porcupineListening s"
  shows "startNativeWakeWordListening e accessKey keyword s = (AlreadyListening, s) \<and>
         wake_success AlreadyListening"
  using assms by (simp add: startNativeWakeWordListening_def)

theorem duplicate_wake_start_is_noop_witness:
  "startNativeWakeWordListening env_ok ''key'' ''jarvis'' listening512 = (AlreadyListening, listening512) \<and>
   wake_success AlreadyListening"
  using duplicate_wake_start_is_noop [of env_ok listening512 "''key''" "''jarvis''"]
  by (simp add: listening512_fields env_ok_fields)

section \<open>Availability handlers\<close>

text \<open>
  Claim C9. With the Porcupine module loaded and the recording module missing, the
  \<^verbatim>\<open>porcupine-available\<close> handler does not return \<^verbatim>\<open>{available: false}\<close>: it
  reads the undeclared \<^verbatim>\<open>portAudio\<close> and throws.
\<close>

theorem porcupine_available_throws:
  "porcupine_available (env_ok\<lparr>record_loaded := False\<rparr>) = Inl (ReferenceError ''portAudio'')"
  by (simp add: porcupine_available_def read_var_def env_ok_def)

lemma porcupine_available_cases:
  "porcupine_available e =
     (if Porcupine_loaded e then Inl (ReferenceError ''portAudio'') else Inr False)"
  by (simp add: porcupine_available_def read_var_def)

lemma leopard_available_value:
  "leopard_available e = Inr (Leopard_loaded e \<and> record_loaded e)"
  by (simp add: leopard_available_def read_var_def)


section \<open>Runs of the agent watcher\<close>

lemma setTimeout_delay_pos: "1 \<le> setTimeout_delay d"
  by (simp add: setTimeout_delay_def)

lemma agent_delay_pos: "1 \<le> agent_delay c"
  by (simp add: agent_delay_def setTimeout_delay_pos)

lemma agent_wf_cases:
  assumes "agent_wf s"
  obtains "a_timers s = []"
  | h d where "a_timers s = [(h, d, ())]" "agentIdleTimer s = Some h" "h < a_next s"
  using assms by (auto simp: agent_wf_def split: list.splits)

lemma agent_fire_none: "a_timers s = [] \<Longrightarrow> agent_fire_due c t s = s"
  by (simp add: agent_fire_due_def due_timers_def pending_timers_def)

lemma agent_fire_pending:
  "a_timers s = [(h, d, ())] \<Longrightarrow> \<not> d \<le> t \<Longrightarrow> agent_fire_due c t s = s"
  by (simp add: agent_fire_due_def due_timers_def pending_timers_def)

lemma agent_fire_one:
  "a_timers s = [(h, d, ())] \<Longrightarrow> d \<le> t \<Longrightarrow>
   agent_fire_due c t s = agent_idle_timeout c d (s\<lparr>a_timers := []\<rparr>)"
  by (simp add: agent_fire_due_def due_timers_def pending_timers_def)

lemma agent_on_change_timers:
  assumes "agent_wf s"
  shows "a_timers (agent_on_change c now p s) = [(a_next s, now + agent_delay c, ())]"
  using assms
  by (rule agent_wf_cases)
     (auto simp: agent_on_change_def Let_def clearTimeout_def agent_delay_def split: option.splits)

lemma agent_on_change_fields:
  "a_sent (agent_on_change c now p s) = a_sent s"
  "hasSeenActivity (agent_on_change c now p s)"
  "lastFileChange (agent_on_change c now p s) = Some now"
  "agentIdleTimer (agent_on_change c now p s) = Some (a_next s)"
  "a_next (agent_on_change c now p s) = Suc (a_next s)"
  "agentWatcherEnabled (agent_on_change c now p s) = agentWatcherEnabled s"
  "a_mainWindowOk (agent_on_change c now p s) = a_mainWindowOk s"
  "changedFiles (agent_on_change c now p s) =
     (if relative c (watchPath c) p \<in> set (changedFiles s) then changedFiles s
      else changedFiles s @ [relative c (watchPath c) p])"
  by (simp_all add: agent_on_change_def Let_def split: option.splits)

lemma change_times_snoc:
  "change_times (past @ [(t, ev)]) = (if is_change ev then change_times past @ [t] else change_times past)"
  by (simp add: change_times_def)

lemma changed_paths_snoc:
  "changed_paths (past @ [(t, Change p)]) = changed_paths past @ [p]"
  "changed_paths (past @ [(t, Add p)]) = changed_paths past @ [p]"
  "changed_paths (past @ [(t, Ready)]) = changed_paths past"
  "changed_paths (past @ [(t, WatchError)]) = changed_paths past"
  by (simp_all add: changed_paths_def)

lemma finished_ok_mono:
  assumes "finished_ok c past m"
  shows "finished_ok c (past @ [(t, ev)]) m"
proof -
  have "set (changed_paths past) \<subseteq> set (changed_paths (past @ [(t, ev)]))"
    by (cases ev) (auto simp: changed_paths_snoc)
  then have "relative c (watchPath c) ` set (changed_paths past) \<subseteq>
             relative c (watchPath c) ` set (changed_paths (past @ [(t, ev)]))"
    by (rule image_mono)
  moreover have "set (change_times past) \<subseteq> set (change_times (past @ [(t, ev)]))"
    by (auto simp: change_times_snoc)
  ultimately show ?thesis using assms unfolding finished_ok_def
    by (cases m; cases "snd m") (simp, blast)
qed

lemma agent_inv_clock:
  assumes "agent_inv c past clock s" and "clock \<le> t" and "\<forall>(h, d, p) \<in> set (a_timers s). t < d"
  shows "agent_inv c past t s"
  using assms unfolding agent_inv_def by fastforce

lemma agent_inv_fire:
  assumes inv: "agent_inv c past clock s" and le: "clock \<le> t"
  shows "agent_inv c past t (agent_fire_due c t s)"
proof -
  from inv have wf: "agent_wf s" by (simp add: agent_inv_def)
  from wf show ?thesis
  proof (rule agent_wf_cases)
    assume e: "a_timers s = []"
    then show ?thesis using agent_inv_clock [OF inv le] by (simp add: agent_fire_none)
  next
    fix h d assume tm: "a_timers s = [(h, d, ())]" and ih: "agentIdleTimer s = Some h"
    show ?thesis
    proof (cases "d \<le> t")
      case False
      then show ?thesis using agent_inv_clock [OF inv le] tm by (simp add: agent_fire_pending)
    next
      case True
      let ?L = "agent_delay c"
      from inv tm have d: "clock < d" "d - ?L \<in> set (change_times past)"
        "\<forall>tc \<in> set (change_times past). tc \<le> d - ?L"
        "\<forall>tf \<in> set (map fst (a_sent s)). tf \<le> d - ?L"
        by (auto simp: agent_inv_def)
      have Lpos: "1 \<le> ?L" by (rule agent_delay_pos)
      have fire: "agent_fire_due c t s = agent_idle_timeout c d (s\<lparr>a_timers := []\<rparr>)"
        using tm True by (rule agent_fire_one)
      show ?thesis
      proof (cases "hasSeenActivity s \<and> agentWatcherEnabled s \<and> a_mainWindowOk s")
        case False
        then have same: "a_sent (agent_fire_due c t s) = a_sent s"
          "a_timers (agent_fire_due c t s) = []"
          "hasSeenActivity (agent_fire_due c t s) \<longrightarrow> changedFiles (agent_fire_due c t s) = changedFiles s \<and> hasSeenActivity s"
          "set (changedFiles (agent_fire_due c t s)) \<subseteq> set (changedFiles s)"
          by (auto simp: fire agent_idle_timeout_def Let_def)
        show ?thesis using inv le same unfolding agent_inv_def
          by (auto simp: agent_wf_def)
      next
        case act: True
        let ?m = "(d, AgentFinished (changedFiles s) (watchPath c) (d - (num (lastFileChange s) - idleThreshold c)))"
        have sent: "a_sent (agent_fire_due c t s) = a_sent s @ [?m]"
          "a_timers (agent_fire_due c t s) = []"
          "\<not> hasSeenActivity (agent_fire_due c t s)"
          "changedFiles (agent_fire_due c t s) = []"
          using act by (auto simp: fire agent_idle_timeout_def Let_def)
        have ok: "finished_ok c past ?m"
          using inv act d(2) by (auto simp: finished_ok_def agent_inv_def)
        have ncw: "no_change_within ?L (change_times past) (map fst (a_sent s) @ [d])"
          using inv d(3) by (auto simp: agent_inv_def no_change_within_def)
        have sp: "spaced ?L (map fst (a_sent s) @ [d])"
          using inv d(4) by (auto simp: agent_inv_def spaced_def sorted_wrt_append)
        have old: "\<forall>tf \<in> set (map fst (a_sent s)). tf \<le> t"
          using inv le by (fastforce simp: agent_inv_def)
        have ch: "\<forall>tc \<in> set (change_times past). tc \<le> t"
          using inv le by (fastforce simp: agent_inv_def)
        have oks: "\<forall>m \<in> set (a_sent s). finished_ok c past m"
          using inv by (simp add: agent_inv_def)
        show ?thesis unfolding agent_inv_def
          using sent ok ncw sp old ch oks True by (auto simp: agent_wf_def)
      qed
    qed
  qed
qed

lemma agent_inv_event:
  assumes inv: "agent_inv c past t s"
  shows "agent_inv c (past @ [(t, ev)]) t (agent_event c t ev s)"
proof -
  let ?L = "agent_delay c"
  have Lpos: "1 \<le> ?L" by (rule agent_delay_pos)
  from inv have wf: "agent_wf s" by (simp add: agent_inv_def)
  have oks: "\<forall>m \<in> set (a_sent s). finished_ok c (past @ [(t, ev)]) m"
    using inv finished_ok_mono by (auto simp: agent_inv_def)
  have paths: "set (changed_paths past) \<subseteq> set (changed_paths (past @ [(t, ev)]))"
    by (cases ev) (auto simp: changed_paths_snoc)
  then have imgs: "relative c (watchPath c) ` set (changed_paths past) \<subseteq>
             relative c (watchPath c) ` set (changed_paths (past @ [(t, ev)]))"
    by (rule image_mono)
  have fins: "\<forall>tf \<in> set (map fst (a_sent s)). tf \<le> t"
    using inv by (simp add: agent_inv_def)
  have chs: "\<forall>tc \<in> set (change_times past). tc \<le> t"
    using inv by (simp add: agent_inv_def)
  have ncw: "no_change_within ?L (change_times (past @ [(t, ev)])) (map fst (a_sent s))"
    using inv fins by (auto simp: agent_inv_def no_change_within_def change_times_snoc)
  have sp: "spaced ?L (map fst (a_sent s))" using inv by (simp add: agent_inv_def)
  have changed: "agent_inv c (past @ [(t, ev)]) t (agent_on_change c t p s)"
    if ev: "is_change ev" "changed_paths (past @ [(t, ev)]) = changed_paths past @ [p]" for p
  proof -
    have cf: "set (changedFiles (agent_on_change c t p s)) \<subseteq>
              relative c (watchPath c) ` set (changed_paths (past @ [(t, ev)]))"
      using inv ev(2) by (auto simp: agent_on_change_fields agent_inv_def)
    have ne: "changedFiles (agent_on_change c t p s) \<noteq> []"
      by (auto simp: agent_on_change_fields)
    show ?thesis unfolding agent_inv_def
      using agent_on_change_timers [OF wf, of c t p] cf ne oks fins chs ncw sp ev(1) Lpos
      by (auto simp: agent_on_change_fields agent_wf_def change_times_snoc)
  qed
  have quiet: "agent_inv c (past @ [(t, ev)]) t s'"
    if q: "\<not> is_change ev" "a_timers s' = a_timers s" "a_sent s' = a_sent s"
       "changedFiles s' = changedFiles s" "hasSeenActivity s' = hasSeenActivity s"
       "agentIdleTimer s' = agentIdleTimer s" "a_next s' = a_next s" for s'
  proof -
    have ct: "change_times (past @ [(t, ev)]) = change_times past"
      using q(1) by (simp add: change_times_snoc)
    have "agent_wf s'" using wf unfolding agent_wf_def q(2) q(6) q(7) .
    moreover have "hasSeenActivity s' \<longrightarrow> changedFiles s' \<noteq> []"
      using inv q(4,5) by (simp add: agent_inv_def)
    moreover have "set (changedFiles s') \<subseteq>
        relative c (watchPath c) ` set (changed_paths (past @ [(t, ev)]))"
      using inv q(4) imgs by (auto simp: agent_inv_def)
    moreover have "\<forall>(h, d, p) \<in> set (a_timers s').
          t < d \<and> d - ?L \<in> set (change_times (past @ [(t, ev)])) \<and>
          (\<forall>tc \<in> set (change_times (past @ [(t, ev)])). tc \<le> d - ?L) \<and>
          (\<forall>tf \<in> set (map fst (a_sent s')). tf \<le> d - ?L)"
      using inv unfolding agent_inv_def ct q(2,3) by blast
    ultimately show ?thesis
      unfolding agent_inv_def using oks fins chs ncw sp q(3) ct by simp
  qed
  show ?thesis
  proof (cases ev)
    case (Change p)
    then show ?thesis using changed [of p] by (simp add: changed_paths_snoc)
  next
    case (Add p)
    then show ?thesis using changed [of p] by (simp add: changed_paths_snoc)
  next
    case Ready
    then show ?thesis using quiet [of "s\<lparr>agentWatcherEnabled := True\<rparr>"] by simp
  next
    case WatchError
    then show ?thesis using quiet [of s] by simp
  qed
qed

lemma agent_inv_run:
  assumes "agent_inv c past clock s" and "sorted (clock # map fst evs)"
  shows "agent_inv c (past @ evs) (last (clock # map fst evs)) (agent_run c evs s)"
  using assms
proof (induction evs arbitrary: past clock s)
  case Nil
  then show ?case by simp
next
  case (Cons e evs)
  obtain t ev where e: "e = (t, ev)" by (cases e)
  from Cons.prems(2) e have le: "clock \<le> t" and rest: "sorted (t # map fst evs)" by simp_all
  have "agent_inv c (past @ [(t, ev)]) t (agent_event c t ev (agent_fire_due c t s))"
    by (rule agent_inv_event) (rule agent_inv_fire [OF Cons.prems(1) le])
  from Cons.IH [OF this rest] show ?case using e by simp
qed

lemma agent_inv_start:
  "agent_inv c [] clock (snd (startAgentWatcher wp thr rel (agent_boot win)))"
  by (simp add: agent_inv_def startAgentWatcher_def agent_boot_def Let_def agent_wf_def
      no_change_within_def spaced_def change_times_def)

lemma agent_inv_exec:
  assumes "sorted (map fst evs @ [T])"
  shows "agent_inv c evs T (agent_exec c evs T (snd (startAgentWatcher wp thr rel (agent_boot win))))"
proof -
  let ?s0 = "snd (startAgentWatcher wp thr rel (agent_boot win))"
  show ?thesis
  proof (cases evs)
    case Nil
    then show ?thesis
      using agent_inv_fire [OF agent_inv_start [of c T wp thr rel win], of T]
      by (simp add: agent_exec_def)
  next
    case (Cons e es)
    let ?t0 = "fst e"
    have "last (?t0 # map fst evs) \<in> set (?t0 # map fst evs)"
      by (rule last_in_set) simp
    moreover have "\<forall>x \<in> set (?t0 # map fst evs). x \<le> T"
      using assms Cons by (auto simp: sorted_append)
    ultimately have "last (?t0 # map fst evs) \<le> T" by blast
    moreover have "sorted (?t0 # map fst evs)"
      using assms Cons by (auto simp: sorted_append)
    ultimately have s: "sorted (?t0 # map fst evs)" "last (?t0 # map fst evs) \<le> T"
      by simp_all
    from agent_inv_run [OF agent_inv_start [of c ?t0 wp thr rel win] s(1)]
    have "agent_inv c evs (last (?t0 # map fst evs)) (agent_run c evs ?s0)" by simp
    from agent_inv_fire [OF this s(2)] show ?thesis by (simp add: agent_exec_def)
  qed
qed

section \<open>Runs of the window watcher\<close>

lemma confirm_delay_value: "confirm_delay = 2000"
  by (simp add: confirm_delay_def setTimeout_delay_def)

lemma window_wf_cases:
  assumes "window_wf s"
  obtains "w_timers s = []" "windowIdleTimer s = None"
  | h d p where "w_timers s = [(h, d, p)]" "windowIdleTimer s = Some h"
  using assms by (auto simp: window_wf_def split: list.splits)

lemma window_fire_none: "w_timers s = [] \<Longrightarrow> window_fire_due t s = s"
  by (simp add: window_fire_due_def due_timers_def pending_timers_def)

lemma window_fire_pending:
  "w_timers s = [(h, d, p)] \<Longrightarrow> \<not> d \<le> t \<Longrightarrow> window_fire_due t s = s"
  by (simp add: window_fire_due_def due_timers_def pending_timers_def)

lemma window_fire_one:
  "w_timers s = [(h, d, p)] \<Longrightarrow> d \<le> t \<Longrightarrow>
   window_fire_due t s = window_idle_timeout d p (s\<lparr>w_timers := []\<rparr>)"
  by (simp add: window_fire_due_def due_timers_def pending_timers_def)

lemma window_before_none: "w_timers s = [] \<Longrightarrow> window_fire_before t s = s"
  by (simp add: window_fire_before_def timers_before_def timers_from_def)

lemma window_before_pending:
  "w_timers s = [(h, d, p)] \<Longrightarrow> \<not> d < t \<Longrightarrow> window_fire_before t s = s"
  by (simp add: window_fire_before_def timers_before_def timers_from_def)

lemma window_before_one:
  "w_timers s = [(h, d, p)] \<Longrightarrow> d < t \<Longrightarrow>
   window_fire_before t s = window_idle_timeout d p (s\<lparr>w_timers := []\<rparr>)"
  by (simp add: window_fire_before_def timers_before_def timers_from_def)

lemma window_before_as_due:
  "window_wf s \<Longrightarrow> window_fire_before t s = window_fire_due (t - 1) s"
proof (erule window_wf_cases)
  assume "w_timers s = []"
  then show ?thesis by (simp add: window_before_none window_fire_none)
next
  fix h d p assume tm: "w_timers s = [(h, d, p)]"
  show ?thesis
  proof (cases "d < t")
    case True
    then have "d \<le> t - 1" by simp
    then show ?thesis using tm True by (simp add: window_before_one window_fire_one)
  next
    case False
    then have "\<not> d \<le> t - 1" by simp
    then show ?thesis using tm False by (simp add: window_before_pending window_fire_pending)
  qed
qed

lemma times_subset:
  "set (activity_times s) \<subseteq> set (map fst (w_sent s))"
  "set (finished_times s) \<subseteq> set (map fst (w_sent s))"
  by (auto simp: activity_times_def finished_times_def)

lemma times_sent_append:
  "w_sent s' = w_sent s @ [(t, WindowActivity a ti ts)] \<Longrightarrow>
     activity_times s' = activity_times s @ [t] \<and> finished_times s' = finished_times s"
  "w_sent s' = w_sent s @ [(t, WindowAgentFinished a ti idle)] \<Longrightarrow>
     activity_times s' = activity_times s \<and> finished_times s' = finished_times s @ [t]"
  "w_sent s' = w_sent s \<Longrightarrow>
     activity_times s' = activity_times s \<and> finished_times s' = finished_times s"
  by (simp_all add: activity_times_def finished_times_def)

lemma window_inv_clock:
  assumes "window_inv clock s" and "clock \<le> t" and "\<forall>(h, d, p) \<in> set (w_timers s). t \<le> d"
  shows "window_inv t s"
  using assms unfolding window_inv_def by fastforce

lemma window_inv_fire:
  assumes inv: "window_inv clock s" and le: "clock \<le> t"
  shows "window_inv t (window_fire_due t s)"
proof -
  from inv have wf: "window_wf s" by (simp add: window_inv_def)
  from wf show ?thesis
  proof (rule window_wf_cases)
    assume "w_timers s = []"
    then show ?thesis using window_inv_clock [OF inv le] by (simp add: window_fire_none)
  next
    fix h d p assume tm: "w_timers s = [(h, d, p)]"
    show ?thesis
    proof (cases "d \<le> t")
      case False
      then show ?thesis using window_inv_clock [OF inv le] tm by (simp add: window_fire_pending)
    next
      case True
      let ?s' = "window_fire_due t s"
      from inv tm have d: "clock \<le> d" "\<forall>u \<in> set (map fst (w_sent s)). u \<le> d - confirm_delay"
        by (auto simp: window_inv_def)
      have fire: "?s' = window_idle_timeout d p (s\<lparr>w_timers := []\<rparr>)"
        using tm True by (rule window_fire_one)
      have shape: "w_timers ?s' = []" "windowIdleTimer ?s' = None"
        by (simp_all add: fire window_idle_timeout_def Let_def)
      have wf': "window_wf ?s'" using shape by (simp add: window_wf_def)
      have old: "\<forall>u \<in> set (map fst (w_sent s)). u \<le> t"
        using inv le by (fastforce simp: window_inv_def)
      show ?thesis
      proof (cases "js_ge (d - num (lastWindowActivity s)) (config_idleThreshold s) \<and> w_mainWindowOk s")
        case False
        then have "w_sent ?s' = w_sent s"
          by (auto simp: fire window_idle_timeout_def Let_def)
        then show ?thesis using inv wf' shape old times_sent_append(3) [of ?s' s]
          unfolding window_inv_def by simp
      next
        case act: True
        have sent: "w_sent ?s' = w_sent s @
            [(d, WindowAgentFinished (windowWatcherApp s) p (d - num (lastWindowActivity s)))]"
          using act by (simp add: fire window_idle_timeout_def Let_def)
        from times_sent_append(2) [OF sent]
        have tms: "activity_times ?s' = activity_times s" "finished_times ?s' = finished_times s @ [d]"
          by simp_all
        have ncw: "no_change_within confirm_delay (activity_times ?s') (finished_times ?s')"
          using inv d(2) times_subset(1) [of s] unfolding tms
          by (fastforce simp: window_inv_def no_change_within_def)
        have sp: "spaced confirm_delay (finished_times ?s')"
          using inv d(2) times_subset(2) [of s] unfolding tms
          by (fastforce simp: window_inv_def spaced_def sorted_wrt_append)
        show ?thesis unfolding window_inv_def
          using wf' shape ncw sp old True by (simp add: sent)
      qed
    qed
  qed
qed

lemma window_inv_before:
  assumes inv: "window_inv clock s" and le: "clock \<le> t"
  shows "window_inv t (window_fire_before t s)"
proof -
  from inv have wf: "window_wf s" by (simp add: window_inv_def)
  show ?thesis
  proof (cases "clock \<le> t - 1")
    case True
    have mid: "window_inv (t - 1) (window_fire_due (t - 1) s)"
      by (rule window_inv_fire [OF inv True])
    have "\<forall>(h, d, p) \<in> set (w_timers (window_fire_due (t - 1) s)). t \<le> d"
      using wf
    proof (rule window_wf_cases)
      assume "w_timers s = []"
      then show ?thesis by (simp add: window_fire_none)
    next
      fix h d p assume tm: "w_timers s = [(h, d, p)]"
      show ?thesis
      proof (cases "d \<le> t - 1")
        case True
        then show ?thesis using tm
          by (simp add: window_fire_one window_idle_timeout_def Let_def)
      next
        case False
        then show ?thesis using tm by (simp add: window_fire_pending)
      qed
    qed
    from window_inv_clock [OF mid _ this] show ?thesis
      by (simp add: window_before_as_due [OF wf])
  next
    case False
    with le have eq: "clock = t" by simp
    have "\<forall>(h, d, p) \<in> set (w_timers s). \<not> d < t"
      using inv eq by (auto simp: window_inv_def)
    then have "window_fire_before t s = s"
      using wf by (auto elim!: window_wf_cases simp: window_before_none window_before_pending)
    then show ?thesis using inv eq by simp
  qed
qed

lemma poll_tick_changed:
  assumes "windowWatcherEnabled s" and "truthy hash" and "hash \<noteq> lastWindowHash s" and "window_wf s"
  shows "w_timers (poll_tick now (Some ci) hash s) = []"
    and "windowIdleTimer (poll_tick now (Some ci) hash s) = None"
    and "lastWindowActivity (poll_tick now (Some ci) hash s) = Some now"
    and "lastWindowHash (poll_tick now (Some ci) hash s) = hash"
    and "w_sent (poll_tick now (Some ci) hash s) =
          (if w_mainWindowOk s
           then w_sent s @ [(now, WindowActivity (windowWatcherApp s) (wi_title ci) now)]
           else w_sent s)"
proof -
  from assms(4) have shape: "w_timers s = [] \<and> windowIdleTimer s = None \<or>
      (\<exists>h d p. w_timers s = [(h, d, p)] \<and> windowIdleTimer s = Some h)"
    by (auto elim: window_wf_cases)
  show "w_timers (poll_tick now (Some ci) hash s) = []"
    using shape assms(1,2,3) by (auto simp: poll_tick_def Let_def clearTimeout_def)
  show "windowIdleTimer (poll_tick now (Some ci) hash s) = None"
    using shape assms(1,2,3) by (auto simp: poll_tick_def Let_def clearTimeout_def)
  show "lastWindowActivity (poll_tick now (Some ci) hash s) = Some now"
    using shape assms(1,2,3) by (auto simp: poll_tick_def Let_def clearTimeout_def)
  show "lastWindowHash (poll_tick now (Some ci) hash s) = hash"
    using shape assms(1,2,3) by (auto simp: poll_tick_def Let_def clearTimeout_def)
  show "w_sent (poll_tick now (Some ci) hash s) =
          (if w_mainWindowOk s
           then w_sent s @ [(now, WindowActivity (windowWatcherApp s) (wi_title ci) now)]
           else w_sent s)"
    using shape assms(1,2,3) by (auto simp: poll_tick_def Let_def clearTimeout_def)
qed

lemma poll_tick_unchanged:
  assumes "\<not> (truthy hash \<and> hash \<noteq> lastWindowHash s)"
  shows "w_sent (poll_tick now info hash s) = w_sent s"
    and "lastWindowHash (poll_tick now info hash s) = lastWindowHash s"
    and "lastWindowActivity (poll_tick now info hash s) = lastWindowActivity s"
    and "w_timers (poll_tick now info hash s) = w_timers s \<and>
           windowIdleTimer (poll_tick now info hash s) = windowIdleTimer s \<or>
         windowIdleTimer s = None \<and>
           w_timers (poll_tick now info hash s) =
             w_timers s @ [(w_next s, now + confirm_delay, wi_title (the info))] \<and>
           windowIdleTimer (poll_tick now info hash s) = Some (w_next s)"
  using assms
  by (auto simp: poll_tick_def Let_def confirm_delay_def split: option.splits)

lemma poll_tick_idle:
  "\<not> windowWatcherEnabled s \<or> info = None \<Longrightarrow> poll_tick now info hash s = s"
  by (auto simp: poll_tick_def split: option.splits)

lemma window_inv_tick:
  assumes inv: "window_inv t s"
  shows "window_inv t (poll_tick t info hash s)"
proof -
  let ?s' = "poll_tick t info hash s"
  from inv have wf: "window_wf s" by (simp add: window_inv_def)
  have old: "\<forall>u \<in> set (map fst (w_sent s)). u \<le> t"
    using inv by (simp add: window_inv_def)
  show ?thesis
  proof (cases "windowWatcherEnabled s \<and> info \<noteq> None \<and> truthy hash \<and> hash \<noteq> lastWindowHash s")
    case True
    then obtain ci where ci: "info = Some ci" by auto
    note ch = poll_tick_changed [of s hash t ci, unfolded ci [symmetric]]
    have shape: "w_timers ?s' = []" "windowIdleTimer ?s' = None"
      using ch(1,2) True wf by simp_all
    have wf': "window_wf ?s'" using shape by (simp add: window_wf_def)
    show ?thesis
    proof (cases "w_mainWindowOk s")
      case False
      then have "w_sent ?s' = w_sent s" using ch(5) True wf by simp
      then show ?thesis using inv wf' shape times_sent_append(3) [of ?s' s]
        unfolding window_inv_def by simp
    next
      case win: True
      have sent: "w_sent ?s' = w_sent s @ [(t, WindowActivity (windowWatcherApp s) (wi_title ci) t)]"
        using ch(5) True wf win ci by simp
      from times_sent_append(1) [OF sent]
      have tms: "activity_times ?s' = activity_times s @ [t]" "finished_times ?s' = finished_times s"
        by simp_all
      have ncw: "no_change_within confirm_delay (activity_times ?s') (finished_times ?s')"
        using inv old times_subset(2) [of s] unfolding tms
        by (fastforce simp: window_inv_def no_change_within_def)
      have sp: "spaced confirm_delay (finished_times ?s')"
        using inv unfolding tms by (simp add: window_inv_def)
      show ?thesis unfolding window_inv_def
        using wf' shape ncw sp old by (simp add: sent)
    qed
  next
    case False
    show ?thesis
    proof (cases "\<not> windowWatcherEnabled s \<or> info = None")
      case True
      then show ?thesis using inv by (simp add: poll_tick_idle)
    next
      case live: False
      with False have un: "\<not> (truthy hash \<and> hash \<noteq> lastWindowHash s)" by auto
      note u = poll_tick_unchanged [OF un, of t info]
      from times_sent_append(3) [OF u(1)]
      have tms: "activity_times ?s' = activity_times s" "finished_times ?s' = finished_times s"
        by simp_all
      from u(4) show ?thesis
      proof
        assume "w_timers ?s' = w_timers s \<and> windowIdleTimer ?s' = windowIdleTimer s"
        then have same: "w_timers ?s' = w_timers s" "windowIdleTimer ?s' = windowIdleTimer s"
          by simp_all
        have "window_wf ?s'" using wf unfolding window_wf_def same .
        then show ?thesis using inv
          unfolding window_inv_def tms u(1) same by simp
      next
        assume arm: "windowIdleTimer s = None \<and>
           w_timers ?s' = w_timers s @ [(w_next s, t + confirm_delay, wi_title (the info))] \<and>
           windowIdleTimer ?s' = Some (w_next s)"
        with wf have empty: "w_timers s = []"
          by (auto elim: window_wf_cases)
        have "window_wf ?s'" using arm empty by (simp add: window_wf_def)
        then show ?thesis using inv arm empty old
          unfolding window_inv_def tms u(1) by (simp add: confirm_delay_value)
      qed
    qed
  qed
qed

lemma window_inv_run:
  assumes "window_inv clock s" and "sorted (clock # map fst ticks)"
  shows "window_inv (last (clock # map fst ticks)) (window_run ticks s)"
  using assms
proof (induction ticks arbitrary: clock s)
  case Nil
  then show ?case by simp
next
  case (Cons e ticks)
  obtain t info hash where e: "e = (t, info, hash)" by (cases e)
  from Cons.prems(2) e have le: "clock \<le> t" and rest: "sorted (t # map fst ticks)" by simp_all
  have "window_inv t (window_fire_before t s)"
    by (rule window_inv_before [OF Cons.prems(1) le])
  then have "window_inv t (poll_tick t info hash (window_fire_before t s))"
    by (rule window_inv_tick)
  then have "window_inv t (window_fire_due t (poll_tick t info hash (window_fire_before t s)))"
    by (rule window_inv_fire) simp
  from Cons.IH [OF this rest] show ?case using e by simp
qed

lemma window_inv_start:
  "window_inv clock (snd (startWindowWatcher found thr now info hash (window_boot win)))"
  by (auto simp: window_inv_def startWindowWatcher_def stopWindowWatcher_def window_boot_def
      Let_def window_wf_def no_change_within_def spaced_def activity_times_def finished_times_def
      split: option.splits)

lemma window_inv_exec:
  assumes "sorted (map fst ticks @ [T])"
  shows "window_inv T (window_exec ticks T (snd (startWindowWatcher found thr now info hash (window_boot win))))"
proof -
  let ?s0 = "snd (startWindowWatcher found thr now info hash (window_boot win))"
  show ?thesis
  proof (cases ticks)
    case Nil
    then show ?thesis
      using window_inv_fire [OF window_inv_start [of T found thr now info hash win], of T]
      by (simp add: window_exec_def)
  next
    case (Cons e es)
    let ?t0 = "fst e"
    have "last (?t0 # map fst ticks) \<in> set (?t0 # map fst ticks)"
      by (rule last_in_set) simp
    moreover have "\<forall>x \<in> set (?t0 # map fst ticks). x \<le> T"
      using assms Cons by (auto simp: sorted_append)
    ultimately have "last (?t0 # map fst ticks) \<le> T" by blast
    moreover have "sorted (?t0 # map fst ticks)"
      using assms Cons by (auto simp: sorted_append)
    ultimately have s: "sorted (?t0 # map fst ticks)" "last (?t0 # map fst ticks) \<le> T"
      by simp_all
    from window_inv_run [OF window_inv_start [of ?t0 found thr now info hash win] s(1)]
    have "window_inv (last (?t0 # map fst ticks)) (window_run ticks ?s0)" by simp
    from window_inv_fire [OF this s(2)] show ?thesis by (simp add: window_exec_def)
  qed
qed

section \<open>The watchers' guarantees\<close>

lemma agent_scenario_times:
  "map fst (a_sent (agent_exec (fst agent_3000) scenario_changes 6800 (snd agent_3000))) = [4800]"
  by code_simp

lemma window_scenario_times:
  "finished_times (window_exec (scenario_ticks 47) 9300 window_3000) = [6800, 9000]"
  by code_simp

lemma startAgentWatcher_config:
  "relative (fst (startAgentWatcher wp thr rel s)) = rel"
  "watchPath (fst (startAgentWatcher wp thr rel s)) = wp"
  "idleThreshold (fst (startAgentWatcher wp thr rel s)) =
     (case thr of Some v \<Rightarrow> v | None \<Rightarrow> 3000)"
  by (simp_all add: startAgentWatcher_def Let_def AGENT_IDLE_THRESHOLD_def split: option.splits)

text \<open>
  Claim C10. In every run of the agent watcher from its start, with events in order of
  time, each \<^verbatim>\<open>agent-finished\<close> message carries a non-empty \<^verbatim>\<open>changedFiles\<close>, made
  of relative paths of files changed or added in the run, and a change or add event
  arrived exactly one timeout delay before it; as the messages are at least that delay
  apart, this event came after the previous message.
\<close>

theorem agent_finished_needs_activity:
  assumes "sorted (map fst evs @ [T])"
    and "started = startAgentWatcher wp thr rel (agent_boot win)"
    and "s = agent_exec (fst started) evs T (snd started)"
  shows "(\<forall>m \<in> set (a_sent s). finished_ok (fst started) evs m) \<and>
         spaced (agent_delay (fst started)) (map fst (a_sent s))"
  using agent_inv_exec [OF assms(1), of "fst started" wp thr rel win] assms(2,3)
  by (simp add: agent_inv_def)

lemma scenario_sorted: "sorted (map fst scenario_changes @ [6800])"
  by (simp add: scenario_changes_def)

lemma agent_scenario_sent:
  "a_sent (agent_exec (fst agent_3000) scenario_changes 6800 (snd agent_3000)) =
     [(4800, AgentFinished [''a'', ''b'', ''c''] ''/proj'' 6000)]"
  by code_simp

theorem agent_finished_needs_activity_witness:
  "finished_ok (fst agent_3000) scenario_changes (4800, AgentFinished [''a'', ''b'', ''c''] ''/proj'' 6000) \<and>
   spaced (agent_delay (fst agent_3000)) [4800]"
  using agent_finished_needs_activity [OF scenario_sorted, of agent_3000 "''/proj''" "Some 3000"
      strip_root True "agent_exec (fst agent_3000) scenario_changes 6800 (snd agent_3000)"]
  by (simp add: agent_3000_def [symmetric] agent_scenario_sent)

text \<open>
  Claim C2. In every state a run of either watcher reaches: a change event replaces the
  pending timeout of the agent watcher by a fresh one (the table then holds one timer,
  under a handle no pending timer has), and a poll that sees a changed
  hash clears the pending confirmation timeout of the window watcher and resets
  \<^verbatim>\<open>lastWindowActivity\<close>; no finished message was sent with a change strictly inside
  the window of its timeout; and finished messages are at least one window apart, so
  each window yields at most one.
\<close>

theorem change_cancels_pending_finished:
  assumes "sorted (map fst evs @ [T])"
    and "started = startAgentWatcher wp thr rel (agent_boot win)"
    and "a = agent_exec (fst started) evs T (snd started)"
    and "sorted (map fst ticks @ [T'])"
    and "w = window_exec ticks T' (snd (startWindowWatcher found wthr t0 info0 hash0 (window_boot win')))"
  shows "(a_timers (agent_on_change (fst started) now p a) =
            [(a_next a, now + agent_delay (fst started), ())] \<and>
          (\<forall>tm \<in> set (a_timers a). fst tm < a_next a) \<and>
          no_change_within (agent_delay (fst started)) (change_times evs) (map fst (a_sent a)) \<and>
          spaced (agent_delay (fst started)) (map fst (a_sent a))) \<and>
         ((windowWatcherEnabled w \<and> truthy hash \<and> hash \<noteq> lastWindowHash w \<longrightarrow>
             w_timers (poll_tick now' (Some ci) hash w) = [] \<and>
             windowIdleTimer (poll_tick now' (Some ci) hash w) = None \<and>
             lastWindowActivity (poll_tick now' (Some ci) hash w) = Some now') \<and>
          no_change_within confirm_delay (activity_times w) (finished_times w) \<and>
          spaced confirm_delay (finished_times w))"
proof -
  have ai: "agent_inv (fst started) evs T a"
    using agent_inv_exec [OF assms(1), of "fst started" wp thr rel win] assms(2,3) by simp
  have wi: "window_inv T' w"
    using window_inv_exec [OF assms(4), of found wthr t0 info0 hash0 win'] assms(5) by simp
  from ai have awf: "agent_wf a" by (simp add: agent_inv_def)
  from wi have wwf: "window_wf w" by (simp add: window_inv_def)
  have "a_timers (agent_on_change (fst started) now p a) =
            [(a_next a, now + agent_delay (fst started), ())]"
    by (rule agent_on_change_timers [OF awf])
  moreover have "\<forall>tm \<in> set (a_timers a). fst tm < a_next a"
    using awf by (rule agent_wf_cases) simp_all
  moreover have "no_change_within (agent_delay (fst started)) (change_times evs) (map fst (a_sent a))"
    "spaced (agent_delay (fst started)) (map fst (a_sent a))"
    using ai by (simp_all add: agent_inv_def)
  moreover have "windowWatcherEnabled w \<and> truthy hash \<and> hash \<noteq> lastWindowHash w \<longrightarrow>
             w_timers (poll_tick now' (Some ci) hash w) = [] \<and>
             windowIdleTimer (poll_tick now' (Some ci) hash w) = None \<and>
             lastWindowActivity (poll_tick now' (Some ci) hash w) = Some now'"
    using poll_tick_changed(1,2,3) [of w hash now' ci] wwf by simp
  moreover have "no_change_within confirm_delay (activity_times w) (finished_times w)"
    "spaced confirm_delay (finished_times w)"
    using wi by (simp_all add: window_inv_def)
  ultimately show ?thesis by simp
qed

lemma ticks_sorted: "sorted (map fst (scenario_ticks 47) @ [9300])"
  by code_simp

lemma window_scenario_state:
  "windowWatcherEnabled (window_exec (scenario_ticks 47) 9300 window_3000)"
  "lastWindowHash (window_exec (scenario_ticks 47) 9300 window_3000) = Some ''h3''"
  "activity_times (window_exec (scenario_ticks 47) 9300 window_3000) = [0, 1000, 1800]"
  "w_timers (window_exec (scenario_ticks 47) 9300 window_3000) = [(2, 11200, ''main.js'')]"
  by code_simp+

lemma agent_scenario_again:
  "a_sent (agent_exec (fst agent_3000) (scenario_changes @ [(6000, Change ''/proj/d'')]) 6500
             (snd agent_3000)) =
     [(4800, AgentFinished [''a'', ''b'', ''c''] ''/proj'' 6000)]"
  "a_timers (agent_exec (fst agent_3000) (scenario_changes @ [(6000, Change ''/proj/d'')]) 6500
               (snd agent_3000)) = [(3, 9000, ())]"
  "a_next (agent_exec (fst agent_3000) (scenario_changes @ [(6000, Change ''/proj/d'')]) 6500
             (snd agent_3000)) = 4"
  "change_times (scenario_changes @ [(6000, Change ''/proj/d'')]) = [0, 1000, 1800, 6000]"
  "sorted (map fst (scenario_changes @ [(6000, Change ''/proj/d'')]) @ [6500])"
  by code_simp+

theorem change_cancels_pending_finished_witness:
  "(a_timers (agent_on_change (fst agent_3000) 7000 ''/proj/e''
        (agent_exec (fst agent_3000) (scenario_changes @ [(6000, Change ''/proj/d'')]) 6500
           (snd agent_3000))) = [(4, 7000 + agent_delay (fst agent_3000), ())] \<and>
    fst (3::nat, 9000::int, ()) < (4::nat) \<and>
    no_change_within (agent_delay (fst agent_3000)) [0, 1000, 1800, 6000] [4800] \<and>
    spaced (agent_delay (fst agent_3000)) [4800]) \<and>
   (w_timers (poll_tick 9400 (Some wi0) (Some ''h4'') (window_exec (scenario_ticks 47) 9300 window_3000)) = [] \<and>
    windowIdleTimer (poll_tick 9400 (Some wi0) (Some ''h4'') (window_exec (scenario_ticks 47) 9300 window_3000)) = None \<and>
    lastWindowActivity (poll_tick 9400 (Some wi0) (Some ''h4'') (window_exec (scenario_ticks 47) 9300 window_3000)) = Some 9400 \<and>
    no_change_within confirm_delay [0, 1000, 1800] [6800, 9000] \<and>
    spaced confirm_delay [6800, 9000])"
  using change_cancels_pending_finished [OF agent_scenario_again(5) _ _ ticks_sorted, of agent_3000
      "''/proj''" "Some 3000" strip_root True
      "agent_exec (fst agent_3000) (scenario_changes @ [(6000, Change ''/proj/d'')]) 6500 (snd agent_3000)"
      "window_exec (scenario_ticks 47) 9300 window_3000" "Some ''Cursor''" "Some 3000" "- 200"
      "Some wi0" "Some ''h0''" True 7000 "''/proj/e''" "Some ''h4''" 9400 wi0]
  by (simp add: agent_3000_def [symmetric] window_3000_def [symmetric] agent_scenario_again
      window_scenario_state window_scenario_times truthy_def)

lemma window_timeouts_keep:
  "lastWindowHash (fold (\<lambda>(h, d, title) s'. window_idle_timeout d title s') tms s) = lastWindowHash s \<and>
   activity_times (fold (\<lambda>(h, d, title) s'. window_idle_timeout d title s') tms s) = activity_times s \<and>
   windowWatcherEnabled (fold (\<lambda>(h, d, title) s'. window_idle_timeout d title s') tms s) = windowWatcherEnabled s"
proof (induction tms arbitrary: s)
  case Nil
  then show ?case by simp
next
  case (Cons tm tms)
  obtain h d title where tm: "tm = (h, d, title)" by (cases tm)
  have "lastWindowHash (window_idle_timeout d title s) = lastWindowHash s \<and>
        activity_times (window_idle_timeout d title s) = activity_times s \<and>
        windowWatcherEnabled (window_idle_timeout d title s) = windowWatcherEnabled s"
    by (simp add: window_idle_timeout_def Let_def activity_times_def)
  with Cons.IH [of "window_idle_timeout d title s"] tm show ?case by simp
qed

lemma window_fire_keeps:
  "lastWindowHash (window_fire_due t s) = lastWindowHash s"
  "activity_times (window_fire_due t s) = activity_times s"
  "windowWatcherEnabled (window_fire_due t s) = windowWatcherEnabled s"
  using window_timeouts_keep [of "due_timers t (w_timers s)" "s\<lparr>w_timers := pending_timers t (w_timers s)\<rparr>"]
  by (simp_all add: window_fire_due_def activity_times_def)

lemma window_before_keeps:
  "lastWindowHash (window_fire_before t s) = lastWindowHash s"
  "activity_times (window_fire_before t s) = activity_times s"
  "windowWatcherEnabled (window_fire_before t s) = windowWatcherEnabled s"
  using window_timeouts_keep [of "timers_before t (w_timers s)" "s\<lparr>w_timers := timers_from t (w_timers s)\<rparr>"]
  by (simp_all add: window_fire_before_def activity_times_def)

lemma unchanged_polls_silent:
  assumes "lastWindowHash s = Some h" and "\<forall>tk \<in> set ticks. snd (snd tk) = Some h"
  shows "activity_times (window_run ticks s) = activity_times s"
  using assms
proof (induction ticks arbitrary: s)
  case Nil
  then show ?case by simp
next
  case (Cons tk ticks)
  obtain t info hash where tk: "tk = (t, info, hash)" by (cases tk)
  with Cons.prems have hash: "hash = Some h" by simp
  let ?s1 = "window_fire_before t s"
  let ?s2 = "poll_tick t info hash ?s1"
  let ?s3 = "window_fire_due t ?s2"
  have un: "\<not> (truthy hash \<and> hash \<noteq> lastWindowHash ?s1)"
    using hash Cons.prems(1) by (simp add: window_before_keeps)
  have "lastWindowHash ?s2 = Some h"
    using poll_tick_unchanged(2) [OF un] Cons.prems(1) by (simp add: window_before_keeps)
  then have "lastWindowHash ?s3 = Some h" by (simp add: window_fire_keeps)
  moreover have "activity_times ?s2 = activity_times s"
    using poll_tick_unchanged(1) [OF un, of t info]
    by (simp add: activity_times_def window_before_keeps [unfolded activity_times_def])
  then have "activity_times ?s3 = activity_times s" by (simp add: window_fire_keeps)
  ultimately show ?case using Cons.IH [of ?s3] Cons.prems(2) tk by simp
qed

lemma poll_tick_changed_sent:
  assumes "windowWatcherEnabled s" and "truthy hash" and "hash \<noteq> lastWindowHash s"
  shows "lastWindowHash (poll_tick now (Some ci) hash s) = hash"
    and "w_sent (poll_tick now (Some ci) hash s) =
          (if w_mainWindowOk s
           then w_sent s @ [(now, WindowActivity (windowWatcherApp s) (wi_title ci) now)]
           else w_sent s)"
  using assms by (auto simp: poll_tick_def Let_def split: option.splits)

text \<open>
  Claim C6. On a poll of the enabled watcher that finds the window and computes a
  non-empty hash, with the main window present: a \<^verbatim>\<open>window-activity\<close> message is sent
  exactly when the hash differs from \<^verbatim>\<open>lastWindowHash\<close>; afterwards
  \<^verbatim>\<open>lastWindowHash\<close> is the new hash; and further polls that compute the same hash send
  no \<^verbatim>\<open>window-activity\<close> message.
\<close>

theorem window_activity_iff_hash_differs:
  assumes "windowWatcherEnabled s" and "w_mainWindowOk s" and "h \<noteq> []"
    and "s' = poll_tick now (Some ci) (Some h) s"
  shows "w_sent s' = (if Some h \<noteq> lastWindowHash s
                      then w_sent s @ [(now, WindowActivity (windowWatcherApp s) (wi_title ci) now)]
                      else w_sent s) \<and>
         lastWindowHash s' = Some h \<and>
         ((\<forall>tk \<in> set ticks. snd (snd tk) = Some h) \<longrightarrow>
            activity_times (window_run ticks s') = activity_times s')"
proof -
  have tr: "truthy (Some h)" using assms(3) by (simp add: truthy_def)
  have sent: "w_sent s' = (if Some h \<noteq> lastWindowHash s
                      then w_sent s @ [(now, WindowActivity (windowWatcherApp s) (wi_title ci) now)]
                      else w_sent s)"
  proof (cases "Some h \<noteq> lastWindowHash s")
    case True
    then show ?thesis
      using poll_tick_changed_sent(2) [OF assms(1) tr True, of now ci] assms(2,4) by simp
  next
    case False
    then show ?thesis using poll_tick_unchanged(1) [of "Some h" s now "Some ci"] assms(4) by simp
  qed
  have base: "lastWindowHash s' = Some h"
  proof (cases "Some h \<noteq> lastWindowHash s")
    case True
    then show ?thesis
      using poll_tick_changed_sent(1) [OF assms(1) tr True, of now ci] assms(4) by simp
  next
    case False
    then show ?thesis using poll_tick_unchanged(2) [of "Some h" s now "Some ci"] assms(4) by simp
  qed
  show ?thesis using sent base unchanged_polls_silent [OF base, of ticks] by simp
qed

lemma window_3000_fields:
  "windowWatcherEnabled window_3000" "w_mainWindowOk window_3000"
  "lastWindowHash window_3000 = Some ''h0''" "w_sent window_3000 = []"
  "windowWatcherApp window_3000 = Some ''Cursor''"
  by (simp_all add: window_3000_def startWindowWatcher_def stopWindowWatcher_def window_boot_def
      Let_def window_wf_def wi0_def)

theorem window_activity_iff_hash_differs_witness:
  "w_sent (poll_tick 0 (Some wi0) (Some ''h1'') window_3000) =
     [(0, WindowActivity (Some ''Cursor'') ''main.js'' 0)] \<and>
   lastWindowHash (poll_tick 0 (Some wi0) (Some ''h1'') window_3000) = Some ''h1'' \<and>
   activity_times (window_run [(200, Some wi0, Some ''h1''), (400, Some wi0, Some ''h1'')]
                     (poll_tick 0 (Some wi0) (Some ''h1'') window_3000)) =
     activity_times (poll_tick 0 (Some wi0) (Some ''h1'') window_3000)"
  using window_activity_iff_hash_differs [of window_3000 "''h1''"
      "poll_tick 0 (Some wi0) (Some ''h1'') window_3000" 0 wi0
      "[(200, Some wi0, Some ''h1''), (400, Some wi0, Some ''h1'')]"]
  by (simp add: window_3000_fields wi0_def)

text \<open>
  Claim C3, as stated, fails. With an idle threshold of 3000 ms and changes at 0, 1000
  and 1800 ms, the agent watcher, which has no confirmation delay, has sent one
  \<^verbatim>\<open>agent-finished\<close> by 6800 ms, and sent it at 4800 ms.
\<close>

theorem three_changes_counterexample:
  "a_sent (agent_exec (fst agent_3000) scenario_changes 6800 (snd agent_3000)) =
     [(4800, AgentFinished [''a'', ''b'', ''c''] ''/proj'' 6000)]"
  by (rule agent_scenario_sent)

lemma agent_on_change_wf: "agent_wf s \<Longrightarrow> agent_wf (agent_on_change c now p s)"
  by (simp add: agent_wf_def [of "agent_on_change c now p s"] agent_on_change_timers
      agent_on_change_fields)

lemma agent_on_change_files:
  "set (changedFiles (agent_on_change c now p s)) =
     insert (relative c (watchPath c) p) (set (changedFiles s))"
  by (auto simp: agent_on_change_fields)

lemma agent_change_step:
  assumes "agent_wf s" and "a_timers s = [] \<or> (\<exists>h d. a_timers s = [(h, d, ())] \<and> t < d)"
  shows "agent_event c t (Change p) (agent_fire_due c t s) = agent_on_change c t p s"
  using assms by (auto simp: agent_fire_none agent_fire_pending)

lemma agent_three_changes:
  assumes st: "started = startAgentWatcher wp (Some 3000) rel (agent_boot True)"
    and T: "4800 \<le> T"
  shows "\<exists>files. a_sent (agent_exec (fst started)
             [(tr, Ready), (0, Change a), (1000, Change b), (1800, Change c)] T (snd started)) =
           [(4800, AgentFinished files wp 6000)] \<and>
           set files = {rel wp a, rel wp b, rel wp c}"
proof -
  let ?c = "fst started"
  let ?s0 = "snd started"
  let ?s1 = "?s0\<lparr>agentWatcherEnabled := True\<rparr>"
  let ?s2 = "agent_on_change ?c 0 a ?s1"
  let ?s3 = "agent_on_change ?c 1000 b ?s2"
  let ?s4 = "agent_on_change ?c 1800 c ?s3"
  have cfg: "relative ?c = rel" "watchPath ?c = wp" "idleThreshold ?c = 3000"
    using st by (simp_all add: startAgentWatcher_config)
  have delay: "agent_delay ?c = 3000"
    by (simp add: agent_delay_def cfg setTimeout_delay_def)
  have s0: "a_timers ?s0 = []" "a_sent ?s0 = []" "changedFiles ?s0 = []" "a_mainWindowOk ?s0"
    using st by (simp_all add: startAgentWatcher_def agent_boot_def Let_def)
  have wf1: "agent_wf ?s1" using s0 by (simp add: agent_wf_def)
  have wf2: "agent_wf ?s2" using wf1 by (rule agent_on_change_wf)
  have wf3: "agent_wf ?s3" using wf2 by (rule agent_on_change_wf)
  have wf4: "agent_wf ?s4" using wf3 by (rule agent_on_change_wf)
  have t2: "a_timers ?s2 = [(a_next ?s1, 3000, ())]"
    using agent_on_change_timers [OF wf1, of ?c 0 a] by (simp add: delay)
  have t3: "a_timers ?s3 = [(a_next ?s2, 4000, ())]"
    using agent_on_change_timers [OF wf2, of ?c 1000 b] by (simp add: delay)
  have t4: "a_timers ?s4 = [(a_next ?s3, 4800, ())]"
    using agent_on_change_timers [OF wf3, of ?c 1800 c] by (simp add: delay)
  have r1: "agent_event ?c tr Ready (agent_fire_due ?c tr ?s0) = ?s1"
    using s0 by (simp add: agent_fire_none)
  have r2: "agent_event ?c 0 (Change a) (agent_fire_due ?c 0 ?s1) = ?s2"
    by (rule agent_change_step [OF wf1]) (simp add: s0)
  have r3: "agent_event ?c 1000 (Change b) (agent_fire_due ?c 1000 ?s2) = ?s3"
    by (rule agent_change_step [OF wf2]) (simp add: t2)
  have r4: "agent_event ?c 1800 (Change c) (agent_fire_due ?c 1800 ?s3) = ?s4"
    by (rule agent_change_step [OF wf3]) (simp add: t3)
  have run: "agent_run ?c [(tr, Ready), (0, Change a), (1000, Change b), (1800, Change c)] ?s0 = ?s4"
    by (simp only: agent_run.simps r1 r2 r3 r4)
  have fire: "agent_fire_due ?c T ?s4 = agent_idle_timeout ?c 4800 (?s4\<lparr>a_timers := []\<rparr>)"
    using t4 T by (rule agent_fire_one)
  have f4: "hasSeenActivity ?s4" "agentWatcherEnabled ?s4" "a_mainWindowOk ?s4"
    "lastFileChange ?s4 = Some 1800" "a_sent ?s4 = []"
    using s0 by (simp_all add: agent_on_change_fields)
  have files: "set (changedFiles ?s4) = {rel wp a, rel wp b, rel wp c}"
    using s0 by (auto simp: agent_on_change_files cfg)
  have "a_sent (agent_exec ?c [(tr, Ready), (0, Change a), (1000, Change b), (1800, Change c)] T ?s0) =
          [(4800, AgentFinished (changedFiles ?s4) wp 6000)]"
    unfolding agent_exec_def run fire
    using f4 by (simp add: agent_idle_timeout_def Let_def cfg num_def)
  with files show ?thesis by blast
qed

section \<open>Three changes seen by the window watcher\<close>

lemma poll_quiet:
  assumes "windowWatcherEnabled s" and "hash = lastWindowHash s"
    and "\<not> (js_ge (now - num (lastWindowActivity s)) (config_idleThreshold s) \<and> windowIdleTimer s = None)"
  shows "poll_tick now (Some ci) hash s = s"
  using assms by (simp add: poll_tick_def Let_def)

lemma poll_arm:
  assumes "windowWatcherEnabled s" and "hash = lastWindowHash s"
    and "js_ge (now - num (lastWindowActivity s)) (config_idleThreshold s)"
    and "windowIdleTimer s = None"
  shows "poll_tick now (Some ci) hash s =
           s\<lparr>w_timers := w_timers s @ [(w_next s, now + 2000, wi_title ci)],
             w_next := Suc (w_next s), windowIdleTimer := Some (w_next s)\<rparr>"
  using assms by (simp add: poll_tick_def Let_def setTimeout_delay_def)

lemma poll_change:
  assumes "windowWatcherEnabled s" and "truthy hash" and "hash \<noteq> lastWindowHash s"
    and "windowIdleTimer s = None" and "w_mainWindowOk s"
  shows "poll_tick now (Some ci) hash s =
           s\<lparr>lastWindowHash := hash, lastWindowActivity := Some now,
             w_sent := w_sent s @ [(now, WindowActivity (windowWatcherApp s) (wi_title ci) now)]\<rparr>"
  using assms by (simp add: poll_tick_def Let_def)

lemma timeout_finishes:
  assumes "js_ge (d - num (lastWindowActivity s)) (config_idleThreshold s)" and "w_mainWindowOk s"
  shows "window_idle_timeout d p s =
           s\<lparr>w_sent := w_sent s @
                 [(d, WindowAgentFinished (windowWatcherApp s) p (d - num (lastWindowActivity s)))],
             w_notified := w_notified s @ [(d, d - num (lastWindowActivity s))],
             windowIdleTimer := None\<rparr>"
  using assms by (simp add: window_idle_timeout_def Let_def)

lemma stage_stateD:
  assumes "stage_state app title h0 h1 h2 h3 t0 n s"
  shows "windowWatcherEnabled s" "w_mainWindowOk s" "config_idleThreshold s = Some 3000"
    "windowWatcherApp s = Some app" "window_wf s"
  using assms by (simp_all add: stage_state_def)

lemma stage_quiet:
  assumes st: "stage_state app title h0 h1 h2 h3 t0 n s" and n: "n < 4"
    and hash: "hash = lastWindowHash s" and short: "now - num (lastWindowActivity s) < 3000"
  shows "window_fire_due now (poll_tick now (Some ci) hash (window_fire_before now s)) = s"
proof -
  have e: "w_timers s = []" using st n by (simp add: stage_state_def)
  have b: "window_fire_before now s = s" using e by (rule window_before_none)
  have p: "poll_tick now (Some ci) hash s = s"
    using short by (intro poll_quiet [OF stage_stateD(1) [OF st] hash])
       (simp add: js_ge_def stage_stateD(3) [OF st])
  have f: "window_fire_due now s = s" using e by (rule window_fire_none)
  show ?thesis by (simp only: b p f)
qed

lemma stage_change:
  assumes st: "stage_state app title h0 h1 h2 h3 t0 n s" and n: "n < 4"
    and hash: "truthy hash" "hash \<noteq> lastWindowHash s"
  shows "window_fire_due now (poll_tick now (Some ci) hash (window_fire_before now s)) =
           s\<lparr>lastWindowHash := hash, lastWindowActivity := Some now,
             w_sent := w_sent s @ [(now, WindowActivity (Some app) (wi_title ci) now)]\<rparr>"
proof -
  note d = stage_stateD [OF st]
  have e: "w_timers s = []" using st n by (simp add: stage_state_def)
  then have idle: "windowIdleTimer s = None" using d(5) by (simp add: window_wf_def)
  have b: "window_fire_before now s = s" using e by (rule window_before_none)
  have p: "poll_tick now (Some ci) hash s =
           s\<lparr>lastWindowHash := hash, lastWindowActivity := Some now,
             w_sent := w_sent s @ [(now, WindowActivity (Some app) (wi_title ci) now)]\<rparr>"
    using poll_change [OF d(1) hash idle d(2), of now ci] by (simp add: d(4))
  have f: "window_fire_due now (poll_tick now (Some ci) hash s) = poll_tick now (Some ci) hash s"
    by (rule window_fire_none) (simp add: p e)
  show ?thesis unfolding b f by (rule p)
qed

lemma stage_arm:
  assumes st: "stage_state app title h0 h1 h2 h3 t0 n s"
    and e: "w_timers s = []"
    and hash: "hash = lastWindowHash s" and long: "3000 \<le> now - num (lastWindowActivity s)"
  shows "window_fire_due now (poll_tick now (Some ci) hash (window_fire_before now s)) =
           s\<lparr>w_timers := [(w_next s, now + 2000, wi_title ci)],
             w_next := Suc (w_next s), windowIdleTimer := Some (w_next s)\<rparr>"
proof -
  note d = stage_stateD [OF st]
  have idle: "windowIdleTimer s = None" using e d(5) by (simp add: window_wf_def)
  have b: "window_fire_before now s = s" using e by (rule window_before_none)
  have p: "poll_tick now (Some ci) hash s =
           s\<lparr>w_timers := [(w_next s, now + 2000, wi_title ci)],
             w_next := Suc (w_next s), windowIdleTimer := Some (w_next s)\<rparr>"
    using poll_arm [OF d(1) hash _ idle, of now ci] long by (simp add: js_ge_def d(3) e)
  have f: "window_fire_due now (poll_tick now (Some ci) hash s) = poll_tick now (Some ci) hash s"
    by (rule window_fire_pending [of _ "w_next s" "now + 2000" "wi_title ci"]) (simp_all add: p)
  show ?thesis unfolding b f by (rule p)
qed

lemma stage_busy:
  assumes st: "stage_state app title h0 h1 h2 h3 t0 n s"
    and e: "w_timers s = [(h, d, p)]" and d: "now < d"
    and hash: "hash = lastWindowHash s"
  shows "window_fire_due now (poll_tick now (Some ci) hash (window_fire_before now s)) = s"
proof -
  note sd = stage_stateD [OF st]
  have busy: "windowIdleTimer s = Some h" using e sd(5) by (simp add: window_wf_def)
  have b: "window_fire_before now s = s" using e d by (simp add: window_before_pending)
  have q: "poll_tick now (Some ci) hash s = s"
    by (rule poll_quiet [OF sd(1) hash]) (simp add: busy)
  have f: "window_fire_due now s = s" using e d by (simp add: window_fire_pending)
  show ?thesis by (simp only: b q f)
qed

lemma stage_finish:
  assumes st: "stage_state app title h0 h1 h2 h3 t0 4 s"
  shows "window_idle_timeout 6800 title (s\<lparr>w_timers := []\<rparr>) =
           s\<lparr>w_timers := [], w_sent := w_sent s @ [(6800, WindowAgentFinished (Some app) title 5000)],
             w_notified := w_notified s @ [(6800, 5000)], windowIdleTimer := None\<rparr>"
proof -
  note d = stage_stateD [OF st]
  have la: "lastWindowActivity s = Some 1800" using st by (simp add: stage_state_def)
  show ?thesis
    using timeout_finishes [of 6800 "s\<lparr>w_timers := []\<rparr>" title] la d
    by (simp add: js_ge_def num_def)
qed

lemma stage_step:
  assumes st: "stage_state app (wi_title ci) h0 h1 h2 h3 t0 (stage t) s"
    and lt: "t < t'" and up: "t' \<le> 8800" and t0: "- 3000 < t0"
    and ns: "\<not> (t < 0 \<and> 0 < t')" "\<not> (t < 1000 \<and> 1000 < t')"
            "\<not> (t < 1800 \<and> 1800 < t')" "\<not> (t < 4800 \<and> 4800 < t')"
    and hs: "h1 \<noteq> []" "h2 \<noteq> []" "h3 \<noteq> []" "h0 \<noteq> Some h1" "h1 \<noteq> h2" "h2 \<noteq> h3"
  shows "stage_state app (wi_title ci) h0 h1 h2 h3 t0 (stage t')
           (window_fire_due t' (poll_tick t' (Some ci) (three_hashes h0 h1 h2 h3 t')
              (window_fire_before t' s)))"
proof -
  let ?H = "three_hashes h0 h1 h2 h3"
  let ?title = "wi_title ci"
  let ?step = "window_fire_due t' (poll_tick t' (Some ci) (?H t') (window_fire_before t' s))"
  consider (c00) "t' < 0" | (c01) "t' = 0" | (c11) "0 < t'" "t' < 1000" | (c12) "t' = 1000"
    | (c22) "1000 < t'" "t' < 1800" | (c23) "t' = 1800" | (c33) "1800 < t'" "t' < 4800"
    | (c34) "t' = 4800" | (c44) "4800 < t'" "t' < 6800" | (c45) "6800 \<le> t'" "t < 6800"
    | (c55) "6800 \<le> t"
    using lt by linarith
  then show ?thesis
  proof cases
    case c00
    then have n: "stage t = 0" "stage t' = 0" using lt by (simp_all add: stage_def)
    have s0: "stage_state app ?title h0 h1 h2 h3 t0 0 s" using st n by simp
    have "?step = s"
      using s0 c00 t0 by (intro stage_quiet [OF s0]) (simp_all add: stage_state_def three_hashes_def num_def)
    then show ?thesis using s0 n by simp
  next
    case c01
    then have n: "stage t = 0" "stage t' = 1" using lt by (simp_all add: stage_def)
    have s0: "stage_state app ?title h0 h1 h2 h3 t0 0 s" using st n by simp
    have "?step = s\<lparr>lastWindowHash := ?H t', lastWindowActivity := Some t',
             w_sent := w_sent s @ [(t', WindowActivity (Some app) ?title t')]\<rparr>"
      using s0 c01 hs by (intro stage_change [OF s0]) (simp_all add: stage_state_def three_hashes_def truthy_def)
    then show ?thesis using s0 n c01 by (auto simp add: stage_state_def three_hashes_def window_wf_def)
  next
    case c11
    then have n: "stage t = 1" "stage t' = 1" using lt ns by (simp_all add: stage_def)
    have s0: "stage_state app ?title h0 h1 h2 h3 t0 1 s" using st n by simp
    have "?step = s"
      using s0 c11 by (intro stage_quiet [OF s0]) (simp_all add: stage_state_def three_hashes_def num_def)
    then show ?thesis using s0 n by simp
  next
    case c12
    then have n: "stage t = 1" "stage t' = 2" using lt ns by (simp_all add: stage_def)
    have s0: "stage_state app ?title h0 h1 h2 h3 t0 1 s" using st n by simp
    have "?step = s\<lparr>lastWindowHash := ?H t', lastWindowActivity := Some t',
             w_sent := w_sent s @ [(t', WindowActivity (Some app) ?title t')]\<rparr>"
      using s0 c12 hs by (intro stage_change [OF s0]) (simp_all add: stage_state_def three_hashes_def truthy_def)
    then show ?thesis using s0 n c12 by (auto simp add: stage_state_def three_hashes_def window_wf_def)
  next
    case c22
    then have n: "stage t = 2" "stage t' = 2" using lt ns by (simp_all add: stage_def)
    have s0: "stage_state app ?title h0 h1 h2 h3 t0 2 s" using st n by simp
    have "?step = s"
      using s0 c22 by (intro stage_quiet [OF s0]) (simp_all add: stage_state_def three_hashes_def num_def)
    then show ?thesis using s0 n by simp
  next
    case c23
    then have n: "stage t = 2" "stage t' = 3" using lt ns by (simp_all add: stage_def)
    have s0: "stage_state app ?title h0 h1 h2 h3 t0 2 s" using st n by simp
    have "?step = s\<lparr>lastWindowHash := ?H t', lastWindowActivity := Some t',
             w_sent := w_sent s @ [(t', WindowActivity (Some app) ?title t')]\<rparr>"
      using s0 c23 hs by (intro stage_change [OF s0]) (simp_all add: stage_state_def three_hashes_def truthy_def)
    then show ?thesis using s0 n c23 by (auto simp add: stage_state_def three_hashes_def window_wf_def)
  next
    case c33
    then have n: "stage t = 3" "stage t' = 3" using lt ns by (simp_all add: stage_def)
    have s0: "stage_state app ?title h0 h1 h2 h3 t0 3 s" using st n by simp
    have "?step = s"
      using s0 c33 by (intro stage_quiet [OF s0]) (simp_all add: stage_state_def three_hashes_def num_def)
    then show ?thesis using s0 n by simp
  next
    case c34
    then have n: "stage t = 3" "stage t' = 4" using lt ns by (simp_all add: stage_def)
    have s0: "stage_state app ?title h0 h1 h2 h3 t0 3 s" using st n by simp
    have "?step = s\<lparr>w_timers := [(w_next s, t' + 2000, ?title)],
             w_next := Suc (w_next s), windowIdleTimer := Some (w_next s)\<rparr>"
      using s0 c34 by (intro stage_arm [OF s0]) (simp_all add: stage_state_def three_hashes_def num_def)
    then show ?thesis using s0 n c34 by (auto simp add: stage_state_def window_wf_def)
  next
    case c44
    then have n: "stage t = 4" "stage t' = 4" using lt ns by (simp_all add: stage_def)
    have s0: "stage_state app ?title h0 h1 h2 h3 t0 4 s" using st n by simp
    then obtain h where e: "w_timers s = [(h, 6800, ?title)]" by (auto simp: stage_state_def)
    have "?step = s"
      using s0 c44 by (intro stage_busy [OF s0 e]) (simp_all add: stage_state_def three_hashes_def)
    then show ?thesis using s0 n by simp
  next
    case c45
    then have n: "stage t = 4" "stage t' = 5" using lt ns by (simp_all add: stage_def)
    have s0: "stage_state app ?title h0 h1 h2 h3 t0 4 s" using st n by simp
    note d = stage_stateD [OF s0]
    from s0 obtain h where e: "w_timers s = [(h, 6800, ?title)]" by (auto simp: stage_state_def)
    then have busy: "windowIdleTimer s = Some h" using d(5) by (simp add: window_wf_def)
    have same: "?H t' = lastWindowHash s" using s0 c45 by (simp add: stage_state_def three_hashes_def)
    let ?s1 = "s\<lparr>w_timers := [], w_sent := w_sent s @ [(6800, WindowAgentFinished (Some app) ?title 5000)],
             w_notified := w_notified s @ [(6800, 5000)], windowIdleTimer := None\<rparr>"
    have s1: "stage_state app ?title h0 h1 h2 h3 t0 5 ?s1"
      using s0 by (auto simp add: stage_state_def window_wf_def)
    show ?thesis
    proof (cases "t' = 6800")
      case True
      have b: "window_fire_before t' s = s" using e True by (simp add: window_before_pending)
      have q: "poll_tick t' (Some ci) (?H t') s = s"
        by (rule poll_quiet [OF d(1) same]) (simp add: busy)
      have f: "window_fire_due t' s = window_idle_timeout 6800 ?title (s\<lparr>w_timers := []\<rparr>)"
        using e True by (simp add: window_fire_one)
      have "?step = ?s1" unfolding b q f by (rule stage_finish [OF s0])
      then show ?thesis using s1 n by simp
    next
      case False
      with c45 have later: "6800 < t'" by simp
      have b: "window_fire_before t' s = ?s1"
        using e later stage_finish [OF s0] by (simp add: window_before_one)
      have b1: "window_fire_before t' ?s1 = ?s1" by (rule window_before_none) simp
      have "window_fire_due t' (poll_tick t' (Some ci) (?H t') (window_fire_before t' ?s1)) =
              ?s1\<lparr>w_timers := [(w_next ?s1, t' + 2000, ?title)],
                 w_next := Suc (w_next ?s1), windowIdleTimer := Some (w_next ?s1)\<rparr>"
        using s0 later same by (intro stage_arm [OF s1]) (simp_all add: stage_state_def num_def)
      then have "?step = ?s1\<lparr>w_timers := [(w_next ?s1, t' + 2000, ?title)],
                 w_next := Suc (w_next ?s1), windowIdleTimer := Some (w_next ?s1)\<rparr>"
        unfolding b b1 .
      then show ?thesis using s1 n later by (auto simp add: stage_state_def window_wf_def)
    qed
  next
    case c55
    then have n: "stage t = 5" "stage t' = 5" using lt by (simp_all add: stage_def)
    have s0: "stage_state app ?title h0 h1 h2 h3 t0 5 s" using st n by simp
    note d = stage_stateD [OF s0]
    have same: "?H t' = lastWindowHash s" using s0 c55 lt by (simp add: stage_state_def three_hashes_def)
    from d(5) show ?thesis
    proof (rule window_wf_cases)
      assume e: "w_timers s = []"
      have "?step = s\<lparr>w_timers := [(w_next s, t' + 2000, ?title)],
             w_next := Suc (w_next s), windowIdleTimer := Some (w_next s)\<rparr>"
        using s0 c55 lt same by (intro stage_arm [OF s0 e]) (simp_all add: stage_state_def num_def)
      then show ?thesis using s0 n c55 lt by (auto simp add: stage_state_def window_wf_def)
    next
      fix h d p assume e: "w_timers s = [(h, d, p)]"
      then have "8800 < d" using s0 by (simp add: stage_state_def)
      then have "t' < d" using up by simp
      then have "?step = s" using same by (intro stage_busy [OF s0 e]) simp_all
      then show ?thesis using s0 n by simp
    qed
  qed
qed

lemma stage_run:
  assumes "stage_state app (wi_title ci) h0 h1 h2 h3 t0 (stage t) s"
    and "sorted_wrt (<) (t # ts)" and "\<forall>u \<in> set ts. u \<le> 8800" and "- 3000 < t0"
    and "\<forall>r \<in> {0, 1000, 1800, 4800}. r \<le> t \<or> r \<in> set ts"
    and "h1 \<noteq> []" "h2 \<noteq> []" "h3 \<noteq> []" "h0 \<noteq> Some h1" "h1 \<noteq> h2" "h2 \<noteq> h3"
  shows "\<exists>tl. stage_state app (wi_title ci) h0 h1 h2 h3 t0 (stage tl)
                (window_run (polls ci (three_hashes h0 h1 h2 h3) ts) s) \<and>
              t \<le> tl \<and> (\<forall>u \<in> set ts. u \<le> tl)"
  using assms(1,2,3,5)
proof (induction ts arbitrary: t s)
  case Nil
  then show ?case by (auto simp: polls_def)
next
  case (Cons t' ts)
  let ?s' = "window_fire_due t' (poll_tick t' (Some ci) (three_hashes h0 h1 h2 h3 t')
              (window_fire_before t' s))"
  from Cons.prems(2) have lt: "t < t'" and later: "\<forall>u \<in> set ts. t' < u"
    and rest: "sorted_wrt (<) (t' # ts)" by auto
  from Cons.prems(3) have up: "t' \<le> 8800" and ups: "\<forall>u \<in> set ts. u \<le> 8800" by simp_all
  have ns: "\<not> (t < r \<and> r < t')" if "r \<in> {0, 1000, 1800, 4800}" for r
    using Cons.prems(4) later that by fastforce
  have req: "\<forall>r \<in> {0, 1000, 1800, 4800}. r \<le> t' \<or> r \<in> set ts"
    using Cons.prems(4) lt by fastforce
  have "stage_state app (wi_title ci) h0 h1 h2 h3 t0 (stage t') ?s'"
    by (rule stage_step [OF Cons.prems(1) lt up assms(4) ns [of 0] ns [of 1000] ns [of 1800]
          ns [of 4800] assms(6-11)]) simp_all
  from Cons.IH [OF this rest ups req]
  obtain tl where "stage_state app (wi_title ci) h0 h1 h2 h3 t0 (stage tl)
                (window_run (polls ci (three_hashes h0 h1 h2 h3) ts) ?s')"
    "t' \<le> tl" "\<forall>u \<in> set ts. u \<le> tl" by blast
  then show ?case using lt by (auto simp: polls_def)
qed

lemma window_three_changes:
  assumes w0: "w0 = snd (startWindowWatcher (Some app) (Some 3000) t0 (Some wi) hash0 (window_boot True))"
    and t0: "- 3000 < t0" and sorted: "sorted_wrt (<) (t0 # ts)"
    and polled: "0 \<in> set ts" "1000 \<in> set ts" "1800 \<in> set ts" "4800 \<in> set ts"
    and T: "\<forall>u \<in> set ts. u \<le> T" "6800 \<le> T" "T \<le> 8800"
    and hs: "h1 \<noteq> []" "h2 \<noteq> []" "h3 \<noteq> []" "hash0 \<noteq> Some h1" "h1 \<noteq> h2" "h2 \<noteq> h3"
  shows "w_sent (window_exec (polls ci (three_hashes hash0 h1 h2 h3) ts) T w0) =
           [(0, WindowActivity (Some app) (wi_title ci) 0),
            (1000, WindowActivity (Some app) (wi_title ci) 1000),
            (1800, WindowActivity (Some app) (wi_title ci) 1800),
            (6800, WindowAgentFinished (Some app) (wi_title ci) 5000)]"
proof -
  let ?title = "wi_title ci"
  let ?run = "window_run (polls ci (three_hashes hash0 h1 h2 h3) ts) w0"
  have neg: "t0 < 0" using sorted polled(1) by auto
  have init: "stage_state app ?title hash0 h1 h2 h3 t0 (stage t0) w0"
    using neg unfolding w0
    by (simp add: stage_def stage_state_def startWindowWatcher_def stopWindowWatcher_def
        window_boot_def Let_def window_wf_def)
  have ups: "\<forall>u \<in> set ts. u \<le> 8800" using T(1,3) by fastforce
  have req: "\<forall>r \<in> {0, 1000, 1800, 4800}. r \<le> t0 \<or> r \<in> set ts" using polled by simp
  from stage_run [OF init sorted ups t0 req hs]
  obtain tl where tl: "stage_state app ?title hash0 h1 h2 h3 t0 (stage tl) ?run"
    "\<forall>u \<in> set ts. u \<le> tl" by blast
  from tl(2) polled(4) have big: "4800 \<le> tl" by blast
  show ?thesis
  proof (cases "tl < 6800")
    case True
    with big have n: "stage tl = 4" by (simp add: stage_def)
    have s4: "stage_state app ?title hash0 h1 h2 h3 t0 4 ?run" using tl(1) n by simp
    then obtain h where e: "w_timers ?run = [(h, 6800, ?title)]" by (auto simp: stage_state_def)
    have "window_fire_due T ?run = window_idle_timeout 6800 ?title (?run\<lparr>w_timers := []\<rparr>)"
      using e T(2) by (rule window_fire_one)
    then show ?thesis using stage_finish [OF s4] s4
      by (simp add: window_exec_def stage_state_def)
  next
    case False
    then have n: "stage tl = 5" by (simp add: stage_def)
    have s5: "stage_state app ?title hash0 h1 h2 h3 t0 5 ?run" using tl(1) n by simp
    have "window_fire_due T ?run = ?run"
      using stage_stateD(5) [OF s5]
    proof (rule window_wf_cases)
      assume "w_timers ?run = []"
      then show ?thesis by (rule window_fire_none)
    next
      fix h d p assume e: "w_timers ?run = [(h, d, p)]"
      then have "8800 < d" using s5 by (simp add: stage_state_def)
      then have "\<not> d \<le> T" using T(3) by simp
      with e show ?thesis by (rule window_fire_pending)
    qed
    then show ?thesis using s5 by (simp add: window_exec_def stage_state_def)
  qed
qed

lemma scenario_times_35:
  "sorted_wrt (<) (- 200 # scenario_times 35)"
  "0 \<in> set (scenario_times 35)" "1000 \<in> set (scenario_times 35)"
  "1800 \<in> set (scenario_times 35)" "4800 \<in> set (scenario_times 35)"
  "list_all (\<lambda>u. u \<le> 6800) (scenario_times 35)"
  by code_simp+

text \<open>
  Claim C3, amended. With an idle threshold of 3000 ms, the main window present and
  changes at 0, 1000 and 1800 ms followed by silence: the agent watcher, once chokidar has reported ready (at
  or before 0 ms), sends \<^verbatim>\<open>agent-finished\<close> exactly once, at 4800 ms, and its
  \<^verbatim>\<open>changedFiles\<close> holds the relative paths of the three changes. The window watcher,
  started less than 3000 ms before 0 and polled at increasing times that include 0,
  1000, 1800 and 4800 ms, every poll finding the window and computing the hash it has
  at that time, sends \<^verbatim>\<open>window-activity\<close> at 0, 1000 and 1800 ms and then
  \<^verbatim>\<open>window-agent-finished\<close> at 6800 ms, with the application, the window title and
  an idle time of 5000 ms, and nothing else up to 8800 ms.
\<close>

theorem three_changes_then_silence:
  assumes "started = startAgentWatcher wp (Some 3000) rel (agent_boot True)"
    and "tr \<le> 0" and "4800 \<le> T"
    and "w0 = snd (startWindowWatcher (Some app) (Some 3000) t0 (Some wi) hash0 (window_boot True))"
    and "- 3000 < t0" and "sorted_wrt (<) (t0 # ts)"
    and "0 \<in> set ts" and "1000 \<in> set ts" and "1800 \<in> set ts" and "4800 \<in> set ts"
    and "\<forall>u \<in> set ts. u \<le> T'" and "6800 \<le> T'" and "T' \<le> 8800"
    and "h1 \<noteq> []" and "h2 \<noteq> []" and "h3 \<noteq> []"
    and "hash0 \<noteq> Some h1" and "h1 \<noteq> h2" and "h2 \<noteq> h3"
  shows "(\<exists>files. a_sent (agent_exec (fst started)
             [(tr, Ready), (0, Change a), (1000, Change b), (1800, Change c)] T (snd started)) =
           [(4800, AgentFinished files wp 6000)] \<and>
           set files = {rel wp a, rel wp b, rel wp c}) \<and>
         w_sent (window_exec (polls ci (three_hashes hash0 h1 h2 h3) ts) T' w0) =
           [(0, WindowActivity (Some app) (wi_title ci) 0),
            (1000, WindowActivity (Some app) (wi_title ci) 1000),
            (1800, WindowActivity (Some app) (wi_title ci) 1800),
            (6800, WindowAgentFinished (Some app) (wi_title ci) 5000)]"
  using agent_three_changes [OF assms(1,3), of tr a b c]
    window_three_changes [OF assms(4-19), of ci]
  by simp

theorem three_changes_then_silence_witness:
  "(\<exists>files. a_sent (agent_exec (fst agent_3000) scenario_changes 6800 (snd agent_3000)) =
           [(4800, AgentFinished files ''/proj'' 6000)] \<and>
           set files = {''a'', ''b'', ''c''}) \<and>
   w_sent (window_exec (scenario_ticks 35) 6800 window_3000) =
     [(0, WindowActivity (Some ''Cursor'') ''main.js'' 0),
      (1000, WindowActivity (Some ''Cursor'') ''main.js'' 1000),
      (1800, WindowActivity (Some ''Cursor'') ''main.js'' 1800),
      (6800, WindowAgentFinished (Some ''Cursor'') ''main.js'' 5000)]"
proof -
  have st: "agent_3000 = startAgentWatcher ''/proj'' (Some 3000) strip_root (agent_boot True)"
    by (rule agent_3000_def)
  have w: "window_3000 = snd (startWindowWatcher (Some ''Cursor'') (Some 3000) (- 200) (Some wi0)
                        (Some ''h0'') (window_boot True))"
    by (rule window_3000_def)
  have le: "\<forall>u \<in> set (scenario_times 35). u \<le> 6800"
    using scenario_times_35(6) by (simp add: list_all_iff)
  have title: "wi_title wi0 = ''main.js''" by (simp add: wi0_def)
  show ?thesis
    using three_changes_then_silence [of agent_3000 "''/proj''" strip_root 0 6800 window_3000
        "''Cursor''" "- 200" wi0 "Some ''h0''" "scenario_times 35" 6800 "''h1''" "''h2''" "''h3''"
        "''/proj/a''" "''/proj/b''" "''/proj/c''" wi0, OF st _ _ w _ scenario_times_35(1-5) le]
    by (simp add: scenario_changes_def scenario_ticks_def strip_root_def title)
qed

end
